theory Spec2Isabelle
  imports Main
begin

section \<open>JavaScript strings\<close>

text \<open>
  A JavaScript string is a sequence of UTF-16 code units; a code unit is modelled as an
  integer. Literals of the source are written through \<open>ascii\<close>.
\<close>

type_synonym jsstring = "int list"

definition ascii :: "string \<Rightarrow> jsstring" where
  "ascii cs = map of_char cs"

text \<open>
  \<open>String.prototype.trim\<close> strips the ECMAScript WhiteSpace and LineTerminator code
  points from both ends: TAB, LF, VT, FF, CR, SP, NBSP, U+1680, U+2000..U+200A, U+2028,
  U+2029, U+202F, U+205F, U+3000 and U+FEFF.
\<close>

definition js_whitespace :: "int \<Rightarrow> bool" where
  "js_whitespace c \<longleftrightarrow>
     c \<in> set [9, 10, 11, 12, 13, 32, 160, 5760, 8232, 8233, 8239, 8287, 12288, 65279]
     \<or> (8192 \<le> c \<and> c \<le> 8202)"

definition trim :: "jsstring \<Rightarrow> jsstring" where
  "trim s = rev (dropWhile js_whitespace (rev (dropWhile js_whitespace s)))"

text \<open>Decimal rendering of a non-negative number, as a template literal prints it.\<close>

fun decimal :: "nat \<Rightarrow> jsstring" where
  "decimal n =
     (if n < 10 then [48 + int n] else decimal (n div 10) @ [48 + int (n mod 10)])"

declare decimal.simps [simp del]

section \<open>The access gate (PinGate)\<close>

datatype gate_status = StatusIdle | StatusDenied | StatusPassed

text \<open>
  The component state \<open>digits\<close>, \<open>status\<close>, \<open>animating\<close>, together with what the
  component has handed to its surroundings: the number of pending 650 ms denial
  timers (\<open>setTimeout\<close> in \<open>deny\<close>, never cleared) and the number of times
  \<open>onAuthorized\<close> has been called.
\<close>

record pin_gate =
  digits :: "jsstring list"
  status :: gate_status
  animating :: bool
  deny_timers :: nat
  authorized_calls :: nat

definition REQUIRED_PIN :: jsstring where
  "REQUIRED_PIN = ascii ''223366''"

definition gate_init :: pin_gate where
  "gate_init = \<lparr>digits = [], status = StatusIdle, animating = False,
                 deny_timers = 0, authorized_calls = 0\<rparr>"

definition reset :: "pin_gate \<Rightarrow> pin_gate" where
  "reset g = g\<lparr>digits := [], status := StatusIdle\<rparr>"

text \<open>\<open>deny\<close> sets the status and arms the cool-down timer.\<close>

definition deny :: "pin_gate \<Rightarrow> pin_gate" where
  "deny g = g\<lparr>status := StatusDenied, deny_timers := Suc (deny_timers g)\<rparr>"

text \<open>The body of the timer armed by \<open>deny\<close>.\<close>

definition deny_timeout :: "pin_gate \<Rightarrow> pin_gate" where
  "deny_timeout g = g\<lparr>digits := [], status := StatusIdle\<rparr>"

definition tryValidateIfComplete :: "jsstring list \<Rightarrow> pin_gate \<Rightarrow> pin_gate" where
  "tryValidateIfComplete nextDigits g =
     (if length nextDigits \<noteq> 6 then g
      else if concat nextDigits = REQUIRED_PIN
           then g\<lparr>status := StatusPassed, animating := True\<rparr>
           else deny g)"

text \<open>
  \<open>addDigit\<close> stores the extended buffer and queues the validation of that same
  buffer as a microtask, which runs before any further input is handled.
\<close>

definition addDigit :: "jsstring \<Rightarrow> pin_gate \<Rightarrow> pin_gate" where
  "addDigit d g =
     (if animating g then g
      else if length (digits g) \<ge> 6 then g
      else (let next = digits g @ [d]
            in tryValidateIfComplete next (g\<lparr>digits := next\<rparr>)))"

definition backspace :: "pin_gate \<Rightarrow> pin_gate" where
  "backspace g =
     (if animating g then g else g\<lparr>digits := butlast (digits g), status := StatusIdle\<rparr>)"

definition clearAll :: "pin_gate \<Rightarrow> pin_gate" where
  "clearAll g = (if animating g then g else reset g)"

text \<open>The \<open>onComplete\<close> callback handed to the security animation.\<close>

definition onComplete :: "pin_gate \<Rightarrow> pin_gate" where
  "onComplete g = g\<lparr>animating := False, authorized_calls := Suc (authorized_calls g)\<rparr>"

text \<open>
  What can happen to the gate: the keypad buttons, the Reset button (disabled while
  animating), a pending denial timer firing, and the animation timer firing (it exists
  only while the animation is open, that is while \<open>animating\<close> holds).
\<close>

datatype gate_event =
    AddDigit jsstring
  | Backspace
  | ClearAll
  | ResetButton
  | DenyTimeout
  | AnimationTimeout

fun gate_step :: "gate_event \<Rightarrow> pin_gate \<Rightarrow> pin_gate" where
  "gate_step (AddDigit d) g = addDigit d g"
| "gate_step Backspace g = backspace g"
| "gate_step ClearAll g = clearAll g"
| "gate_step ResetButton g = (if animating g then g else reset g)"
| "gate_step DenyTimeout g =
     (if deny_timers g = 0 then g
      else deny_timeout (g\<lparr>deny_timers := deny_timers g - 1\<rparr>))"
| "gate_step AnimationTimeout g = (if animating g then onComplete g else g)"

definition gate_run :: "pin_gate \<Rightarrow> gate_event list \<Rightarrow> pin_gate" where
  "gate_run g evs = foldl (\<lambda>g e. gate_step e g) g evs"

text \<open>Entering a sequence of digits on the keypad of a freshly mounted gate.\<close>

definition enter :: "jsstring list \<Rightarrow> pin_gate" where
  "enter ds = gate_run gate_init (map AddDigit ds)"

text \<open>The keypad sequence 2,2,3,3,6,6.\<close>

definition pin_digits :: "jsstring list" where
  "pin_digits = [ascii ''2'', ascii ''2'', ascii ''3'', ascii ''3'', ascii ''6'', ascii ''6'']"

text \<open>The events that need no user: the two timers.\<close>

fun timer_event :: "gate_event \<Rightarrow> bool" where
  "timer_event DenyTimeout = True"
| "timer_event AnimationTimeout = True"
| "timer_event e = False"

section \<open>The voice loop (useJarvisVoiceLoop)\<close>

text \<open>
  The model follows the version of the hook that takes the \<open>micEnabled\<close> prop and
  returns \<open>sendText\<close>. An \<open>async\<close> function is cut at each \<open>await\<close>: the part before
  it runs with the event that calls the function and leaves a task pending, the part
  after it runs with the event that settles the task. The state updates of one such
  part are committed together, and the render that follows runs the effects whose
  dependencies changed. The model covers the hook while it is mounted.
\<close>

subsection \<open>Data\<close>

datatype JarvisRole = User | Assistant

record JarvisMessage =
  msg_id :: jsstring
  role :: JarvisRole
  content :: jsstring
  ts :: nat

datatype JarvisPhase = Locked | Booting | Idle | Listening | Thinking | Speaking | Error

record JarvisError =
  title :: jsstring
  detail :: "jsstring option"

text \<open>
  What \<open>pushMessage\<close> reads from its environment: \<open>Date.now()\<close> for the id, the
  rendered \<open>Math.random().toString(16).slice(2)\<close>, and \<open>Date.now()\<close> again for
  \<open>ts\<close>. \<open>Date.now()\<close> is the wall clock in milliseconds.
\<close>

record stamp =
  now_id :: nat
  random_hex :: jsstring
  now_ts :: nat

text \<open>
  The functions of the hook are created anew at every render and close over the
  \<open>phase\<close> and \<open>messages\<close> of that render. A callback that runs later (a timer, a
  recognition handler, the continuation of an \<open>await\<close>) still sees those values.
\<close>

record closure =
  c_phase :: JarvisPhase
  c_messages :: "JarvisMessage list"

text \<open>
  A \<open>SpeechRecognition\<close> object: the closure of its \<open>onresult\<close>, \<open>onerror\<close> and
  \<open>onend\<close> handlers (\<open>None\<close> once they are set to null) and whether \<open>abort()\<close>
  was called on it. \<open>onstart\<close> is never removed.
\<close>

record recognition =
  rec_handlers :: "closure option"
  rec_aborted :: bool

text \<open>
  A reply request: the \<open>AbortController\<close> created for it with the body of the
  \<open>fetch\<close> it guards.
\<close>

record request =
  req_text :: jsstring
  req_messages :: "JarvisMessage list"
  req_aborted :: bool
  req_settled :: bool

definition in_flight :: "request \<Rightarrow> bool" where
  "in_flight r \<longleftrightarrow> \<not> req_aborted r \<and> \<not> req_settled r"

text \<open>
  Everything the hook has left pending with the browser: timers and suspended
  \<open>async\<close> functions.
\<close>

datatype task =
    BootTimer
  | SettleTimer closure
  | RearmTimer closure
  | PlaceholderTimer
  | AwaitPermission closure
  | AwaitFetch nat
  | AwaitUtterance jsstring

fun delay_ms :: "task \<Rightarrow> nat option" where
  "delay_ms BootTimer = Some 1600"
| "delay_ms (SettleTimer cl) = Some 250"
| "delay_ms (RearmTimer cl) = Some 450"
| "delay_ms PlaceholderTimer = Some 900"
| "delay_ms (AwaitPermission cl) = None"
| "delay_ms (AwaitFetch i) = None"
| "delay_ms (AwaitUtterance t) = None"

fun is_settle :: "task \<Rightarrow> bool" where
  "is_settle (SettleTimer cl) = True"
| "is_settle t = False"

text \<open>
  The props (\<open>started\<close>, \<open>micEnabled\<close>), two capabilities of the browser
  (\<open>supportsSpeechRecognition\<close>, and \<open>"speechSynthesis" in window\<close>), the four
  \<open>useState\<close> cells, the five refs, and the objects the refs point into.
\<close>

record loop_state =
  started :: bool
  micEnabled :: bool
  supportsSpeechRecognition :: bool
  speechSynthesisAvailable :: bool
  phase :: JarvisPhase
  micActive :: bool
  error :: "JarvisError option"
  messages :: "JarvisMessage list"
  lastTranscriptRef :: jsstring
  recognitionRef :: "nat option"
  speakingRef :: bool
  thinkingAbortRef :: "nat option"
  micEnabledRef :: bool
  recognitions :: "recognition list"
  requests :: "request list"
  tasks :: "task list"

subsection \<open>Helpers\<close>

text \<open>The object literal inside \<open>pushMessage\<close>.\<close>

definition new_message :: "JarvisRole \<Rightarrow> jsstring \<Rightarrow> stamp \<Rightarrow> JarvisMessage" where
  "new_message r c st =
     \<lparr>msg_id = decimal (now_id st) @ ascii ''-'' @ random_hex st,
      role = r, content = c, ts = now_ts st\<rparr>"

definition pushMessage :: "JarvisRole \<Rightarrow> jsstring \<Rightarrow> stamp \<Rightarrow> loop_state \<Rightarrow> loop_state" where
  "pushMessage r c st s = s\<lparr>messages := messages s @ [new_message r c st]\<rparr>"

definition stopListeningHard :: "loop_state \<Rightarrow> loop_state" where
  "stopListeningHard s =
     (let s1 = s\<lparr>micActive := False\<rparr>
      in case recognitionRef s1 of
           None \<Rightarrow> s1
         | Some r \<Rightarrow>
             s1\<lparr>recognitions := (recognitions s1)
                   [r := (recognitions s1 ! r)\<lparr>rec_handlers := None, rec_aborted := True\<rparr>]\<rparr>)"

subsection \<open>speak\<close>

text \<open>
  \<open>speak\<close> up to its \<open>await\<close>: either the 900 ms placeholder timer or the
  utterance handed to the synthesiser is left pending. What runs after the
  \<open>await\<close> is \<open>speak_resume\<close>, the same assignment on both paths.
\<close>

definition speak :: "jsstring \<Rightarrow> loop_state \<Rightarrow> loop_state" where
  "speak text s =
     (let s1 = stopListeningHard s;
          s2 = s1\<lparr>phase := Speaking\<rparr>
      in if \<not> speechSynthesisAvailable s2
         then s2\<lparr>tasks := tasks s2 @ [PlaceholderTimer]\<rparr>
         else s2\<lparr>tasks := tasks s2 @ [AwaitUtterance text]\<rparr>)"

definition speak_resume :: "loop_state \<Rightarrow> loop_state" where
  "speak_resume s = s\<lparr>phase := (if micEnabledRef s then Listening else Idle)\<rparr>"

definition utterance_onstart :: "loop_state \<Rightarrow> loop_state" where
  "utterance_onstart s = stopListeningHard (s\<lparr>speakingRef := True\<rparr>)"

text \<open>\<open>onend\<close> and \<open>onerror\<close> of the utterance, followed by the rest of \<open>speak\<close>.\<close>

definition utterance_done :: "loop_state \<Rightarrow> loop_state" where
  "utterance_done s = speak_resume (s\<lparr>speakingRef := False\<rparr>)"

subsection \<open>callBackend\<close>

text \<open>
  What the \<open>fetch\<close> of \<open>callBackend\<close> can come back with: a rejection, or a
  response with its status, what \<open>resp.text()\<close> yields and what \<open>resp.json()\<close>
  yields (each may itself reject). Of the parsed body only \<open>reply\<close> is read; a body
  on which reading or trimming \<open>reply\<close> raises a TypeError takes the same way into the
  \<open>catch\<close> as a rejected \<open>json()\<close> and is an \<open>Inl\<close> here. The rejection of an
  aborted \<open>fetch\<close> arrives, like every other outcome, with the event that settles the
  request.
\<close>

datatype thrown = ErrorObj jsstring | NonError

datatype reply_field = NoReply | ReplyString jsstring

datatype fetch_result =
    Rejected thrown
  | Responded nat "thrown + jsstring" "thrown + reply_field"

definition response_ok :: "nat \<Rightarrow> bool" where
  "response_ok st \<longleftrightarrow> 200 \<le> st \<and> st \<le> 299"

text \<open>
  The \<open>try\<close> block after the \<open>fetch\<close> settles, up to the reply: \<open>Inl\<close> is the
  value that reaches the \<open>catch\<close>, \<open>Inr\<close> the trimmed, non-empty reply.
\<close>

fun read_reply :: "fetch_result \<Rightarrow> thrown + jsstring" where
  "read_reply (Rejected e) = Inl e"
| "read_reply (Responded st txt js) =
     (if \<not> response_ok st
      then (case txt of
              Inl e \<Rightarrow> Inl e
            | Inr t \<Rightarrow>
                Inl (ErrorObj (if t \<noteq> [] then t
                               else ascii ''Request failed ('' @ decimal st @ ascii '')'')))
      else (case js of
              Inl e \<Rightarrow> Inl e
            | Inr d \<Rightarrow>
                (let reply = trim (case d of NoReply \<Rightarrow> [] | ReplyString r \<Rightarrow> r)
                 in if reply = []
                    then Inl (ErrorObj (ascii ''Backend returned an empty reply.''))
                    else Inr reply)))"

fun thrown_message :: "thrown \<Rightarrow> jsstring" where
  "thrown_message (ErrorObj m) = m"
| "thrown_message NonError = ascii ''Unknown error''"

definition connection_error :: "thrown \<Rightarrow> JarvisError" where
  "connection_error e =
     \<lparr>title = ascii ''Connection / response error'',
      detail = Some (thrown_message e @ [10, 10] @
        ascii ''Expected backend response: { reply: string }. Configure VITE_JARVIS_API_URL to your API endpoint.'')\<rparr>"

definition abort_previous :: "loop_state \<Rightarrow> loop_state" where
  "abort_previous s =
     (case thinkingAbortRef s of
        None \<Rightarrow> s
      | Some j \<Rightarrow> s\<lparr>requests := (requests s)[j := (requests s ! j)\<lparr>req_aborted := True\<rparr>]\<rparr>)"

definition store_controller :: "nat \<Rightarrow> loop_state \<Rightarrow> loop_state" where
  "store_controller c s = s\<lparr>thinkingAbortRef := Some c\<rparr>"

definition issue_fetch :: "nat \<Rightarrow> jsstring \<Rightarrow> closure \<Rightarrow> loop_state \<Rightarrow> loop_state" where
  "issue_fetch c text cl s =
     s\<lparr>requests := requests s @
          [\<lparr>req_text = text, req_messages = c_messages cl,
            req_aborted = False, req_settled = False\<rparr>],
       tasks := tasks s @ [AwaitFetch c]\<rparr>"

text \<open>
  \<open>callBackend\<close> up to the \<open>await\<close> of the \<open>fetch\<close>. The new controller is the
  next free index of \<open>requests\<close>.
\<close>

definition callBackend :: "jsstring \<Rightarrow> closure \<Rightarrow> loop_state \<Rightarrow> loop_state" where
  "callBackend text cl s =
     (let s1 = stopListeningHard s;
          s2 = s1\<lparr>phase := Thinking\<rparr>;
          c = length (requests s2)
      in issue_fetch c text cl (store_controller c (abort_previous s2)))"

text \<open>\<open>callBackend\<close> from the point where the \<open>fetch\<close> of request \<open>i\<close> has settled.\<close>

definition callBackend_settled ::
    "nat \<Rightarrow> fetch_result \<Rightarrow> stamp \<Rightarrow> loop_state \<Rightarrow> loop_state" where
  "callBackend_settled i res st s =
     (let s1 = s\<lparr>requests := (requests s)[i := (requests s ! i)\<lparr>req_settled := True\<rparr>]\<rparr>
      in case read_reply res of
           Inr reply \<Rightarrow> speak reply (pushMessage Assistant reply st s1)
         | Inl e \<Rightarrow> s1\<lparr>error := Some (connection_error e), phase := Error\<rparr>)"

subsection \<open>startListening\<close>

text \<open>\<open>startListening\<close> up to the \<open>await\<close> of \<open>getUserMedia\<close>.\<close>

definition startListening :: "closure \<Rightarrow> loop_state \<Rightarrow> loop_state" where
  "startListening cl s =
     (if \<not> supportsSpeechRecognition s
      then s\<lparr>error := Some \<lparr>title = ascii ''SpeechRecognition not supported'',
                 detail = Some (ascii ''This browser does not support the Web Speech API SpeechRecognition interface. Use Chrome on Android/Desktop.'')\<rparr>,
             phase := Error\<rparr>
      else if c_phase cl \<noteq> Listening then s
      else if speakingRef s then s
      else s\<lparr>tasks := tasks s @ [AwaitPermission cl]\<rparr>)"

text \<open>
  \<open>startListening\<close> after \<open>getUserMedia\<close> has settled. When \<open>rec.start()\<close> throws,
  the \<open>catch\<close> block begins with a call of \<open>setMicEnabled\<close>, a name this version of
  the hook does not define: the block raises a ReferenceError there and changes nothing.
\<close>

definition startListening_permission ::
    "closure \<Rightarrow> bool \<Rightarrow> bool \<Rightarrow> loop_state \<Rightarrow> loop_state" where
  "startListening_permission cl granted start_throws s =
     (if \<not> granted
      then s\<lparr>error := Some \<lparr>title = ascii ''Microphone permission denied'',
                 detail = Some (ascii ''Please allow microphone access to use hands-free voice mode. On Android Chrome: site settings '' @ [8594] @ ascii '' microphone '' @ [8594] @ ascii '' allow.'')\<rparr>,
             phase := Error\<rparr>
      else if \<not> supportsSpeechRecognition s then s
      else (let r = length (recognitions s);
                s1 = s\<lparr>recognitions := recognitions s @
                         [\<lparr>rec_handlers = None, rec_aborted = False\<rparr>],
                       recognitionRef := Some r\<rparr>;
                s2 = s1\<lparr>lastTranscriptRef := []\<rparr>;
                s3 = s2\<lparr>recognitions := (recognitions s2)
                         [r := (recognitions s2 ! r)\<lparr>rec_handlers := Some cl\<rparr>]\<rparr>
            in if start_throws then s3 else s3))"

definition rec_onstart :: "loop_state \<Rightarrow> loop_state" where
  "rec_onstart s = s\<lparr>micActive := True\<rparr>"

definition rec_onresult :: "jsstring option \<Rightarrow> loop_state \<Rightarrow> loop_state" where
  "rec_onresult transcript s =
     s\<lparr>lastTranscriptRef := trim (case transcript of None \<Rightarrow> [] | Some t \<Rightarrow> t)\<rparr>"

definition rec_onerror :: "jsstring \<Rightarrow> jsstring option \<Rightarrow> loop_state \<Rightarrow> loop_state" where
  "rec_onerror err msg s =
     s\<lparr>micActive := False,
       error := Some \<lparr>title = ascii ''Voice input error'',
          detail = Some (err @ (case msg of
                                  None \<Rightarrow> []
                                | Some m \<Rightarrow> if m = [] then [] else ascii '': '' @ m))\<rparr>,
       phase := Error\<rparr>"

definition rec_onend :: "closure \<Rightarrow> stamp \<Rightarrow> loop_state \<Rightarrow> loop_state" where
  "rec_onend cl st s =
     (let s1 = s\<lparr>micActive := False\<rparr>;
          transcript = trim (lastTranscriptRef s1)
      in if transcript = []
         then (if c_phase cl = Listening \<and> micEnabledRef s1
               then s1\<lparr>tasks := tasks s1 @ [RearmTimer cl]\<rparr>
               else s1)
         else callBackend transcript cl (pushMessage User transcript st s1))"

subsection \<open>Effects\<close>

text \<open>The effect on \<open>[micEnabled, started]\<close>.\<close>

definition effect_mic :: "loop_state \<Rightarrow> loop_state" where
  "effect_mic s =
     (let s1 = s\<lparr>micEnabledRef := micEnabled s\<rparr>
      in if \<not> micEnabled s1
         then (let s2 = stopListeningHard s1
               in s2\<lparr>phase := (if phase s2 = Thinking \<or> phase s2 = Speaking \<or> phase s2 = Error
                                then phase s2
                                else if started s2 then Idle else Locked)\<rparr>)
         else s1\<lparr>phase := (if phase s1 = Idle then Listening else phase s1)\<rparr>)"

text \<open>The effect on \<open>[started]\<close>, and its cleanup, which clears the boot timer.\<close>

definition effect_boot :: "loop_state \<Rightarrow> loop_state" where
  "effect_boot s =
     (if \<not> started s then s\<lparr>phase := Locked\<rparr>
      else s\<lparr>error := None, phase := Booting, tasks := tasks s @ [BootTimer]\<rparr>)"

definition effect_boot_cleanup :: "loop_state \<Rightarrow> loop_state" where
  "effect_boot_cleanup s = s\<lparr>tasks := removeAll BootTimer (tasks s)\<rparr>"

definition boot_done :: "loop_state \<Rightarrow> loop_state" where
  "boot_done s = s\<lparr>phase := (if micEnabledRef s then Listening else Idle)\<rparr>"

text \<open>
  The effect on \<open>[phase, started]\<close>, run for a render that shows phase \<open>p\<close>, and its
  cleanup, which clears the settle timer. The \<open>startListening\<close> it schedules is the one
  of that render.
\<close>

definition effect_listen :: "JarvisPhase \<Rightarrow> loop_state \<Rightarrow> loop_state" where
  "effect_listen p s =
     (if \<not> started s then s
      else if \<not> micEnabledRef s then stopListeningHard s
      else if p \<noteq> Listening then stopListeningHard s
      else s\<lparr>tasks := tasks s @ [SettleTimer \<lparr>c_phase = p, c_messages = messages s\<rparr>]\<rparr>)"

definition effect_listen_cleanup :: "loop_state \<Rightarrow> loop_state" where
  "effect_listen_cleanup s = s\<lparr>tasks := filter (\<lambda>t. \<not> is_settle t) (tasks s)\<rparr>"

subsection \<open>The returned operations\<close>

definition sendText :: "jsstring \<Rightarrow> stamp \<Rightarrow> loop_state \<Rightarrow> loop_state" where
  "sendText text st s =
     (let safe = trim text
      in if safe = [] then s
         else callBackend safe \<lparr>c_phase = phase s, c_messages = messages s\<rparr>
                (pushMessage User safe st s))"

definition retry :: "loop_state \<Rightarrow> loop_state" where
  "retry s = s\<lparr>error := None, phase := (if micEnabledRef s then Listening else Idle)\<rparr>"

subsection \<open>Mounting and events\<close>

text \<open>
  The hook as \<open>useState\<close> and \<open>useRef\<close> initialise it, and after the three effects of
  the first render have run.
\<close>

definition initial :: "bool \<Rightarrow> bool \<Rightarrow> bool \<Rightarrow> bool \<Rightarrow> loop_state" where
  "initial st me sr tts =
     \<lparr>started = st, micEnabled = me,
      supportsSpeechRecognition = sr, speechSynthesisAvailable = tts,
      phase = (if st then Booting else Locked), micActive = False, error = None,
      messages = [], lastTranscriptRef = [], recognitionRef = None, speakingRef = False,
      thinkingAbortRef = None, micEnabledRef = me,
      recognitions = [], requests = [], tasks = []\<rparr>"

text \<open>
  A render commits the state; the effect on \<open>[phase, started]\<close> runs again when the
  phase shown differs from the phase of the last render.
\<close>

definition rerender :: "JarvisPhase \<Rightarrow> loop_state \<Rightarrow> loop_state" where
  "rerender p_old s =
     (if phase s \<noteq> p_old then effect_listen (phase s) (effect_listen_cleanup s) else s)"

definition mount :: "loop_state \<Rightarrow> loop_state" where
  "mount s = rerender (phase s) (effect_listen (phase s) (effect_boot (effect_mic s)))"

definition init :: "bool \<Rightarrow> bool \<Rightarrow> bool \<Rightarrow> bool \<Rightarrow> loop_state" where
  "init st me sr tts = mount (initial st me sr tts)"

text \<open>
  The parent renders the hook with new props: the cleanups of the effects whose
  dependencies changed run first, then their bodies in the order of the source, all for
  the phase \<open>p0\<close> this render shows; the phase they set is committed afterwards.
\<close>

definition set_props :: "bool \<Rightarrow> bool \<Rightarrow> loop_state \<Rightarrow> loop_state" where
  "set_props st me s =
     (let p0 = phase s;
          ch_st = (st \<noteq> started s);
          ch_me = (me \<noteq> micEnabled s);
          s1 = s\<lparr>started := st, micEnabled := me\<rparr>;
          s2 = (if ch_st then effect_listen_cleanup (effect_boot_cleanup s1) else s1);
          s3 = (if ch_st \<or> ch_me then effect_mic s2 else s2);
          s4 = (if ch_st then effect_boot s3 else s3)
      in if ch_st then effect_listen p0 s4 else s4)"

text \<open>A pending timer fires.\<close>

fun fire :: "task \<Rightarrow> loop_state \<Rightarrow> loop_state" where
  "fire BootTimer s = boot_done s"
| "fire (SettleTimer cl) s = startListening cl s"
| "fire (RearmTimer cl) s = startListening cl s"
| "fire PlaceholderTimer s = speak_resume s"
| "fire (AwaitPermission cl) s = s"
| "fire (AwaitFetch i) s = s"
| "fire (AwaitUtterance t) s = s"

definition handler_of :: "nat \<Rightarrow> loop_state \<Rightarrow> closure option" where
  "handler_of r s =
     (if r < length (recognitions s) then rec_handlers (recognitions s ! r) else None)"

text \<open>
  The events the hook reacts to. A timer or a continuation runs only when it is
  pending, and a recognition handler only while it is attached.
\<close>

datatype event =
    Props bool bool
  | TimerFired task
  | PermissionSettled closure bool bool
  | RecStart nat
  | RecResult nat "jsstring option"
  | RecError nat jsstring "jsstring option"
  | RecEnd nat stamp
  | FetchSettled nat fetch_result stamp
  | UtteranceStart jsstring
  | UtteranceEnd jsstring
  | UtteranceError jsstring
  | SendText jsstring stamp
  | Retry

fun handle :: "event \<Rightarrow> loop_state \<Rightarrow> loop_state" where
  "handle (Props st me) s = set_props st me s"
| "handle (TimerFired t) s =
     (if delay_ms t \<noteq> None \<and> t \<in> set (tasks s)
      then fire t (s\<lparr>tasks := remove1 t (tasks s)\<rparr>) else s)"
| "handle (PermissionSettled cl granted start_throws) s =
     (if AwaitPermission cl \<in> set (tasks s)
      then startListening_permission cl granted start_throws
             (s\<lparr>tasks := remove1 (AwaitPermission cl) (tasks s)\<rparr>)
      else s)"
| "handle (RecStart r) s = (if r < length (recognitions s) then rec_onstart s else s)"
| "handle (RecResult r transcript) s =
     (case handler_of r s of None \<Rightarrow> s | Some cl \<Rightarrow> rec_onresult transcript s)"
| "handle (RecError r err msg) s =
     (case handler_of r s of None \<Rightarrow> s | Some cl \<Rightarrow> rec_onerror err msg s)"
| "handle (RecEnd r st) s =
     (case handler_of r s of None \<Rightarrow> s | Some cl \<Rightarrow> rec_onend cl st s)"
| "handle (FetchSettled i res st) s =
     (if AwaitFetch i \<in> set (tasks s)
      then callBackend_settled i res st (s\<lparr>tasks := remove1 (AwaitFetch i) (tasks s)\<rparr>)
      else s)"
| "handle (UtteranceStart t) s =
     (if AwaitUtterance t \<in> set (tasks s) then utterance_onstart s else s)"
| "handle (UtteranceEnd t) s =
     (if AwaitUtterance t \<in> set (tasks s)
      then utterance_done (s\<lparr>tasks := remove1 (AwaitUtterance t) (tasks s)\<rparr>) else s)"
| "handle (UtteranceError t) s =
     (if AwaitUtterance t \<in> set (tasks s)
      then utterance_done (s\<lparr>tasks := remove1 (AwaitUtterance t) (tasks s)\<rparr>) else s)"
| "handle (SendText text st) s = sendText text st s"
| "handle Retry s = retry s"

text \<open>
  One reaction: the handler runs to its end (or to its next \<open>await\<close>), its state
  updates are committed together, and the render that follows runs the phase effect.
\<close>

definition step :: "event \<Rightarrow> loop_state \<Rightarrow> loop_state" where
  "step ev s = rerender (phase s) (handle ev s)"

definition run :: "loop_state \<Rightarrow> event list \<Rightarrow> loop_state" where
  "run s evs = foldl (\<lambda>s e. step e s) s evs"

section \<open>Notions used in the statements\<close>

text \<open>
  A failed reply, in the words of the reply contract: a transport failure, a status
  that is not 2xx, a body that cannot be read as JSON, or a reply that is missing or
  empty after trimming.
\<close>

fun reply_failure :: "fetch_result \<Rightarrow> bool" where
  "reply_failure (Rejected e) = True"
| "reply_failure (Responded st txt js) =
     (\<not> response_ok st \<or>
      (case js of
         Inl e \<Rightarrow> True
       | Inr NoReply \<Rightarrow> True
       | Inr (ReplyString r) \<Rightarrow> trim r = []))"

text \<open>The stamp an event carries for \<open>pushMessage\<close>, and the clock readings of a run.\<close>

fun event_stamp :: "event \<Rightarrow> stamp option" where
  "event_stamp (RecEnd r st) = Some st"
| "event_stamp (FetchSettled i res st) = Some st"
| "event_stamp (SendText t st) = Some st"
| "event_stamp e = None"

definition clock_readings :: "event list \<Rightarrow> nat list" where
  "clock_readings evs = map now_ts (List.map_filter event_stamp evs)"

text \<open>
  The controller's copy of the mic flag agrees with the prop, \<open>listening\<close> is shown
  only with the flag set and \<open>idle\<close> only with it cleared.
\<close>

definition inv_mic :: "loop_state \<Rightarrow> bool" where
  "inv_mic s \<longleftrightarrow>
     micEnabledRef s = micEnabled s \<and>
     (phase s = Listening \<longrightarrow> micEnabledRef s) \<and>
     (phase s = Idle \<longrightarrow> \<not> micEnabledRef s)"

text \<open>
  Every suspended \<open>startListening\<close> and every attached recognition handler belongs to
  a render that showed \<open>listening\<close>.
\<close>

fun ok_task :: "task \<Rightarrow> bool" where
  "ok_task (AwaitPermission cl) = (c_phase cl = Listening)"
| "ok_task t = True"

definition ok_rec :: "recognition \<Rightarrow> bool" where
  "ok_rec rc = (case rec_handlers rc of None \<Rightarrow> True | Some cl \<Rightarrow> c_phase cl = Listening)"

definition inv_cl :: "loop_state \<Rightarrow> bool" where
  "inv_cl s \<longleftrightarrow> list_all ok_task (tasks s) \<and> list_all ok_rec (recognitions s)"

text \<open>A request in flight is the one \<open>thinkingAbortRef\<close> points to.\<close>

definition inv_req :: "loop_state \<Rightarrow> bool" where
  "inv_req s \<longleftrightarrow>
     (\<forall>i<length (requests s). in_flight (requests s ! i) \<longrightarrow> thinkingAbortRef s = Some i)"

text \<open>A recognition object exists only where the browser has the capability.\<close>

definition inv_sr :: "loop_state \<Rightarrow> bool" where
  "inv_sr s \<longleftrightarrow> (recognitions s = [] \<or> supportsSpeechRecognition s)"

section \<open>Example runs\<close>

text \<open>A stamp with the wall clock at \<open>n\<close>, and the closure of the first listening render.\<close>

definition demo_stamp :: "nat \<Rightarrow> stamp" where
  "demo_stamp n = \<lparr>now_id = n, random_hex = ascii ''8f3a'', now_ts = n\<rparr>"

definition listening_closure :: closure where
  "listening_closure = \<lparr>c_phase = Listening, c_messages = []\<rparr>"

text \<open>
  The hook is started with the mic enabled, the boot timer and the settle timer fire,
  the microphone permission is granted and recognition starts.
\<close>

definition to_capture :: "event list" where
  "to_capture =
     [Props True True, TimerFired BootTimer, TimerFired (SettleTimer listening_closure),
      PermissionSettled listening_closure True False, RecStart 0]"

text \<open>The utterance "turn on the lights" is heard; then recognition ends.\<close>

definition heard :: "event list" where
  "heard = to_capture @ [RecResult 0 (Some (ascii ''turn on the lights''))]"

definition to_thinking :: "event list" where
  "to_thinking =
     to_capture @ [RecResult 0 (Some (ascii ''turn on the lights'')), RecEnd 0 (demo_stamp 100)]"

text \<open>The user switches the mic off after boot, and sends two texts.\<close>

definition to_text_mode :: "event list" where
  "to_text_mode = [Props True True, TimerFired BootTimer, Props True False]"

definition two_sends :: "event list" where
  "two_sends =
     to_text_mode @ [SendText (ascii ''lights on'') (demo_stamp 10),
                     SendText (ascii ''lights off'') (demo_stamp 20)]"

text \<open>The same two texts, with the wall clock set back between them.\<close>

definition clock_steps_back :: "event list" where
  "clock_steps_back =
     to_text_mode @ [SendText (ascii ''lights on'') (demo_stamp 20),
                     SendText (ascii ''lights off'') (demo_stamp 10)]"

text \<open>Replies of the endpoint.\<close>

definition http_500 :: fetch_result where
  "http_500 = Responded 500 (Inr (ascii ''Internal Server Error'')) (Inl NonError)"

definition blank_reply :: fetch_result where
  "blank_reply = Responded 200 (Inr []) (Inr (ReplyString (ascii ''   '')))"

definition lights_reply :: fetch_result where
  "lights_reply = Responded 200 (Inl NonError) (Inr (ReplyString (ascii ''Lights are on.'')))"

text \<open>
  The permission prompt is still open when the user switches the mic off and sends a
  text; the permission is granted afterwards and recognition starts.
\<close>

definition prompt_then_text :: "event list" where
  "prompt_then_text =
     [Props True True, TimerFired BootTimer, TimerFired (SettleTimer listening_closure),
      Props True False, SendText (ascii ''lights on'') (demo_stamp 10),
      PermissionSettled listening_closure True False, RecStart 0]"

text \<open>
  In text mode a first request fails and a second one is answered and spoken; while the
  utterance is being spoken the user switches the mic on and presses Retry. The
  permission prompt of the first listening phase is open throughout.
\<close>

definition retry_while_speaking :: "event list" where
  "retry_while_speaking =
     [Props True True, TimerFired BootTimer, TimerFired (SettleTimer listening_closure),
      Props True False,
      SendText (ascii ''lights on'') (demo_stamp 10), FetchSettled 0 http_500 (demo_stamp 20),
      SendText (ascii ''lights on'') (demo_stamp 30), FetchSettled 1 lights_reply (demo_stamp 40),
      UtteranceStart (ascii ''Lights are on.''),
      Props True True, Retry]"



section \<open>Properties of the access gate\<close>

lemma gate_run_append: "gate_run g (xs @ ys) = gate_run (gate_run g xs) ys"
  by (simp add: gate_run_def)

lemma gate_run_short:
  "\<not> animating g \<Longrightarrow> length (digits g) + length ds < 6 \<Longrightarrow>
   gate_run g (map AddDigit ds) = g\<lparr>digits := digits g @ ds\<rparr>"
proof (induction ds arbitrary: g)
  case Nil
  then show ?case by (simp add: gate_run_def)
next
  case (Cons d ds)
  let ?g = "g\<lparr>digits := digits g @ [d]\<rparr>"
  from Cons.prems have one: "addDigit d g = ?g"
    by (simp add: addDigit_def tryValidateIfComplete_def)
  have "gate_run g (map AddDigit (d # ds)) = gate_run ?g (map AddDigit ds)"
    using one by (simp add: gate_run_def)
  also have "\<dots> = ?g\<lparr>digits := digits ?g @ ds\<rparr>"
    using Cons.prems by (intro Cons.IH) simp_all
  finally show ?case by simp
qed

lemma enter_short: "length ds < 6 \<Longrightarrow> enter ds = gate_init\<lparr>digits := ds\<rparr>"
  using gate_run_short [of gate_init ds] by (simp add: enter_def gate_init_def)

lemma enter_six:
  assumes "length ds = 6"
  shows "enter ds = tryValidateIfComplete ds (gate_init\<lparr>digits := ds\<rparr>)"
proof -
  from assms have ne: "ds \<noteq> []" by auto
  then have split: "ds = butlast ds @ [last ds]" by simp
  have len: "length (butlast ds) < 6" using assms by simp
  have "enter ds = gate_run gate_init (map AddDigit (butlast ds) @ [AddDigit (last ds)])"
    unfolding enter_def using split by (metis list.simps(8,9) map_append)
  also have "\<dots> = addDigit (last ds) (enter (butlast ds))"
    by (simp add: gate_run_append enter_def) (simp add: gate_run_def)
  also have "\<dots> = addDigit (last ds) (gate_init\<lparr>digits := butlast ds\<rparr>)"
    using len by (simp add: enter_short)
  also have "\<dots> = tryValidateIfComplete ds (gate_init\<lparr>digits := ds\<rparr>)"
    using assms ne by (simp add: addDigit_def gate_init_def)
  finally show ?thesis .
qed

lemma enter_six_status:
  "length ds = 6 \<Longrightarrow>
   status (enter ds) = (if concat ds = REQUIRED_PIN then StatusPassed else StatusDenied)"
  by (simp add: enter_six tryValidateIfComplete_def deny_def)

lemma enter_six_denied:
  assumes "length ds = 6" "status (enter ds) = StatusDenied"
  shows "enter ds = gate_init\<lparr>digits := ds, status := StatusDenied, deny_timers := 1\<rparr>"
  using assms by (simp add: enter_six tryValidateIfComplete_def deny_def gate_init_def split: if_splits)

lemma enter_six_passed:
  assumes "length ds = 6" "status (enter ds) = StatusPassed"
  shows "enter ds = gate_init\<lparr>digits := ds, status := StatusPassed, animating := True\<rparr>"
  using assms by (simp add: enter_six tryValidateIfComplete_def deny_def gate_init_def split: if_splits)

text \<open>
  Claim C3, as the gate implements it. Fewer than six digits entered on a fresh gate leave
  the status \<open>idle\<close>. Six digits resolve at once: \<open>passed\<close> when they spell the
  required PIN and \<open>denied\<close> otherwise. After a denial the buffer still holds the six
  digits until the cool-down timer fires, which empties it and returns the status to
  \<open>idle\<close>. After a pass nothing empties the buffer: it keeps the six digits when the
  animation completes, and no denial timer is pending.
\<close>

theorem gate_resolution:
  "(length ds < 6 \<longrightarrow> status (enter ds) = StatusIdle) \<and>
   (length ds = 6 \<longrightarrow>
      status (enter ds) = (if concat ds = REQUIRED_PIN then StatusPassed else StatusDenied) \<and>
      (status (enter ds) = StatusDenied \<longrightarrow>
         digits (enter ds) = ds \<and>
         digits (gate_step DenyTimeout (enter ds)) = [] \<and>
         status (gate_step DenyTimeout (enter ds)) = StatusIdle) \<and>
      (status (enter ds) = StatusPassed \<longrightarrow>
         digits (enter ds) = ds \<and>
         digits (gate_step AnimationTimeout (enter ds)) = ds \<and>
         status (gate_step AnimationTimeout (enter ds)) = StatusPassed \<and>
         gate_step DenyTimeout (enter ds) = enter ds))"
proof (intro conjI impI)
  assume "length ds < 6"
  then show "status (enter ds) = StatusIdle"
    by (simp add: enter_short gate_init_def)
next
  assume "length ds = 6"
  then show "status (enter ds) = (if concat ds = REQUIRED_PIN then StatusPassed else StatusDenied)"
    by (rule enter_six_status)
next
  assume a: "length ds = 6" "status (enter ds) = StatusDenied"
  show "digits (enter ds) = ds"
    by (simp add: enter_six_denied [OF a])
  show "digits (gate_step DenyTimeout (enter ds)) = []"
    by (simp add: enter_six_denied [OF a] deny_timeout_def)
  show "status (gate_step DenyTimeout (enter ds)) = StatusIdle"
    by (simp add: enter_six_denied [OF a] deny_timeout_def)
next
  assume a: "length ds = 6" "status (enter ds) = StatusPassed"
  show "digits (enter ds) = ds"
    by (simp add: enter_six_passed [OF a])
  show "digits (gate_step AnimationTimeout (enter ds)) = ds"
    by (simp add: enter_six_passed [OF a] onComplete_def)
  show "status (gate_step AnimationTimeout (enter ds)) = StatusPassed"
    by (simp add: enter_six_passed [OF a] onComplete_def)
  show "gate_step DenyTimeout (enter ds) = enter ds"
    by (simp add: enter_six_passed [OF a] gate_init_def)
qed

text \<open>The three cases at 1,2,3, at 1,2,3,4,5,6 and at 2,2,3,3,6,6.\<close>

theorem gate_resolution_witness:
  "status (enter [ascii ''1'', ascii ''2'', ascii ''3'']) = StatusIdle \<and>
   status (enter [ascii ''1'', ascii ''2'', ascii ''3'', ascii ''4'', ascii ''5'', ascii ''6'']) = StatusDenied \<and>
   digits (gate_step DenyTimeout (enter [ascii ''1'', ascii ''2'', ascii ''3'', ascii ''4'', ascii ''5'', ascii ''6''])) = [] \<and>
   status (gate_step DenyTimeout (enter [ascii ''1'', ascii ''2'', ascii ''3'', ascii ''4'', ascii ''5'', ascii ''6''])) = StatusIdle \<and>
   status (enter [ascii ''2'', ascii ''2'', ascii ''3'', ascii ''3'', ascii ''6'', ascii ''6'']) = StatusPassed \<and>
   digits (gate_step AnimationTimeout (enter [ascii ''2'', ascii ''2'', ascii ''3'', ascii ''3'', ascii ''6'', ascii ''6''])) =
     [ascii ''2'', ascii ''2'', ascii ''3'', ascii ''3'', ascii ''6'', ascii ''6'']"
proof -
  let ?short = "[ascii ''1'', ascii ''2'', ascii ''3'']"
  let ?wrong = "[ascii ''1'', ascii ''2'', ascii ''3'', ascii ''4'', ascii ''5'', ascii ''6'']"
  let ?pin = "[ascii ''2'', ascii ''2'', ascii ''3'', ascii ''3'', ascii ''6'', ascii ''6'']"
  have l1: "length ?short < 6" and l2: "length ?wrong = 6" and l3: "length ?pin = 6"
    by simp_all
  have w: "concat ?wrong \<noteq> REQUIRED_PIN" and p: "concat ?pin = REQUIRED_PIN"
    by (simp_all add: REQUIRED_PIN_def ascii_def)
  from gate_resolution [of ?short] l1 have a: "status (enter ?short) = StatusIdle"
    by blast
  from gate_resolution [of ?wrong] l2 w have b: "status (enter ?wrong) = StatusDenied"
    by simp
  from gate_resolution [of ?wrong] l2 b
  have c: "digits (gate_step DenyTimeout (enter ?wrong)) = []"
    "status (gate_step DenyTimeout (enter ?wrong)) = StatusIdle"
    by blast+
  from gate_resolution [of ?pin] l3 p have d: "status (enter ?pin) = StatusPassed"
    by simp
  from gate_resolution [of ?pin] l3 d
  have e: "digits (gate_step AnimationTimeout (enter ?pin)) = ?pin"
    by blast
  from a b c d e show ?thesis by blast
qed

text \<open>
  Claim C3 as stated expects an empty buffer after either resolution. With the PIN
  entered the status is \<open>passed\<close> and the buffer is not empty, neither at once nor after
  the animation has completed.
\<close>

theorem gate_passed_keeps_digits:
  "length pin_digits = 6 \<and>
   status (enter pin_digits) = StatusPassed \<and>
   digits (enter pin_digits) \<noteq> [] \<and>
   digits (gate_step AnimationTimeout (enter pin_digits)) \<noteq> []"
  by code_simp

lemma enter_pin_digits:
  "enter pin_digits =
     \<lparr>digits = pin_digits, status = StatusPassed, animating = True,
      deny_timers = 0, authorized_calls = 0\<rparr>"
proof -
  have "length pin_digits = 6" by (simp add: pin_digits_def)
  moreover have "concat pin_digits = REQUIRED_PIN"
    by (simp add: pin_digits_def REQUIRED_PIN_def ascii_def)
  ultimately show ?thesis
    by (simp add: enter_six tryValidateIfComplete_def gate_init_def)
qed

lemma timers_after_pass:
  assumes "list_all timer_event evs" "deny_timers g = 0"
  shows "gate_run g evs =
           (if animating g \<and> AnimationTimeout \<in> set evs then onComplete g else g)"
  using assms
proof (induction evs arbitrary: g)
  case Nil
  then show ?case by (simp add: gate_run_def)
next
  case (Cons e evs)
  from Cons.prems have e: "e = DenyTimeout \<or> e = AnimationTimeout"
    by (cases e) simp_all
  have run: "\<And>x. gate_run g (x # evs) = gate_run (gate_step x g) evs"
    by (simp add: gate_run_def)
  from e show ?case
  proof
    assume "e = DenyTimeout"
    then show ?thesis
      using Cons.prems Cons.IH [of g] by (simp add: run)
  next
    assume a: "e = AnimationTimeout"
    show ?thesis
    proof (cases "animating g")
      case True
      have "gate_run (onComplete g) evs = onComplete g"
        using Cons.prems Cons.IH [of "onComplete g"] by (simp add: onComplete_def)
      with a True show ?thesis by (simp add: run)
    next
      case False
      with a show ?thesis
        using Cons.prems Cons.IH [of g] by (simp add: run)
    qed
  qed
qed

text \<open>
  Claim C5. Entering 2,2,3,3,6,6 on a fresh gate sets the status to \<open>passed\<close> and
  starts the animation, with \<open>onAuthorized\<close> not yet called. Whatever timers fire
  afterwards, the status stays \<open>passed\<close> and \<open>onAuthorized\<close> has been called once as
  soon as the animation timer has fired, and never a second time.
\<close>

theorem pin_accepted_once:
  "status (enter pin_digits) = StatusPassed \<and>
   animating (enter pin_digits) \<and>
   authorized_calls (enter pin_digits) = 0 \<and>
   (list_all timer_event evs \<longrightarrow>
      status (gate_run (enter pin_digits) evs) = StatusPassed \<and>
      authorized_calls (gate_run (enter pin_digits) evs) =
        (if AnimationTimeout \<in> set evs then 1 else 0))"
proof -
  have "deny_timers (enter pin_digits) = 0" by (simp add: enter_pin_digits)
  from timers_after_pass [OF _ this] show ?thesis
    by (simp add: enter_pin_digits onComplete_def)
qed

theorem pin_accepted_once_witness:
  "list_all timer_event [DenyTimeout, AnimationTimeout, AnimationTimeout, DenyTimeout] \<and>
   status (enter pin_digits) = StatusPassed \<and>
   authorized_calls (gate_run (enter pin_digits)
      [DenyTimeout, AnimationTimeout, AnimationTimeout, DenyTimeout]) = 1"
proof -
  have h: "list_all timer_event [DenyTimeout, AnimationTimeout, AnimationTimeout, DenyTimeout]"
    by simp
  with pin_accepted_once [of "[DenyTimeout, AnimationTimeout, AnimationTimeout, DenyTimeout]"]
  show ?thesis by simp
qed

section \<open>What each helper changes\<close>

lemma pushMessage_frame [simp]:
  "phase (pushMessage r c st s) = phase s"
  "micEnabledRef (pushMessage r c st s) = micEnabledRef s"
  "micEnabled (pushMessage r c st s) = micEnabled s"
  "started (pushMessage r c st s) = started s"
  "error (pushMessage r c st s) = error s"
  "requests (pushMessage r c st s) = requests s"
  "thinkingAbortRef (pushMessage r c st s) = thinkingAbortRef s"
  "tasks (pushMessage r c st s) = tasks s"
  "recognitions (pushMessage r c st s) = recognitions s"
  "recognitionRef (pushMessage r c st s) = recognitionRef s"
  "speechSynthesisAvailable (pushMessage r c st s) = speechSynthesisAvailable s"
  by (simp_all add: pushMessage_def)

lemma stopListeningHard_frame [simp]:
  "phase (stopListeningHard s) = phase s"
  "micEnabledRef (stopListeningHard s) = micEnabledRef s"
  "micEnabled (stopListeningHard s) = micEnabled s"
  "started (stopListeningHard s) = started s"
  "error (stopListeningHard s) = error s"
  "messages (stopListeningHard s) = messages s"
  "requests (stopListeningHard s) = requests s"
  "thinkingAbortRef (stopListeningHard s) = thinkingAbortRef s"
  "tasks (stopListeningHard s) = tasks s"
  "speechSynthesisAvailable (stopListeningHard s) = speechSynthesisAvailable s"
  by (simp_all add: stopListeningHard_def Let_def split: option.splits)

lemma speak_frame [simp]:
  "phase (speak t s) = Speaking"
  "micEnabledRef (speak t s) = micEnabledRef s"
  "micEnabled (speak t s) = micEnabled s"
  "started (speak t s) = started s"
  "error (speak t s) = error s"
  "messages (speak t s) = messages s"
  "requests (speak t s) = requests s"
  "thinkingAbortRef (speak t s) = thinkingAbortRef s"
  "tasks (speak t s) =
     tasks s @ [if speechSynthesisAvailable s then AwaitUtterance t else PlaceholderTimer]"
  by (simp_all add: speak_def Let_def)

lemma speak_resume_frame [simp]:
  "phase (speak_resume s) = (if micEnabledRef s then Listening else Idle)"
  "micEnabledRef (speak_resume s) = micEnabledRef s"
  "micEnabled (speak_resume s) = micEnabled s"
  "started (speak_resume s) = started s"
  "error (speak_resume s) = error s"
  "messages (speak_resume s) = messages s"
  "requests (speak_resume s) = requests s"
  "thinkingAbortRef (speak_resume s) = thinkingAbortRef s"
  "tasks (speak_resume s) = tasks s"
  "recognitions (speak_resume s) = recognitions s"
  by (simp_all add: speak_resume_def)

lemma utterance_onstart_frame [simp]:
  "phase (utterance_onstart s) = phase s"
  "micEnabledRef (utterance_onstart s) = micEnabledRef s"
  "micEnabled (utterance_onstart s) = micEnabled s"
  "started (utterance_onstart s) = started s"
  "error (utterance_onstart s) = error s"
  "messages (utterance_onstart s) = messages s"
  "requests (utterance_onstart s) = requests s"
  "thinkingAbortRef (utterance_onstart s) = thinkingAbortRef s"
  "tasks (utterance_onstart s) = tasks s"
  by (simp_all add: utterance_onstart_def)

lemma utterance_done_frame [simp]:
  "phase (utterance_done s) = (if micEnabledRef s then Listening else Idle)"
  "micEnabledRef (utterance_done s) = micEnabledRef s"
  "micEnabled (utterance_done s) = micEnabled s"
  "started (utterance_done s) = started s"
  "error (utterance_done s) = error s"
  "messages (utterance_done s) = messages s"
  "requests (utterance_done s) = requests s"
  "thinkingAbortRef (utterance_done s) = thinkingAbortRef s"
  "tasks (utterance_done s) = tasks s"
  "recognitions (utterance_done s) = recognitions s"
  by (simp_all add: utterance_done_def)

lemma callBackend_frame [simp]:
  "phase (callBackend t cl s) = Thinking"
  "micEnabledRef (callBackend t cl s) = micEnabledRef s"
  "micEnabled (callBackend t cl s) = micEnabled s"
  "started (callBackend t cl s) = started s"
  "error (callBackend t cl s) = error s"
  "messages (callBackend t cl s) = messages s"
  "thinkingAbortRef (callBackend t cl s) = Some (length (requests s))"
  "tasks (callBackend t cl s) = tasks s @ [AwaitFetch (length (requests s))]"
  by (simp_all add: callBackend_def Let_def issue_fetch_def store_controller_def
        abort_previous_def split: option.splits)

lemma callBackend_requests:
  "requests (callBackend t cl s) =
     requests (abort_previous s) @
       [\<lparr>req_text = t, req_messages = c_messages cl, req_aborted = False, req_settled = False\<rparr>]"
  by (simp add: callBackend_def Let_def issue_fetch_def store_controller_def
        abort_previous_def split: option.splits)

lemma startListening_frame [simp]:
  "micEnabledRef (startListening cl s) = micEnabledRef s"
  "micEnabled (startListening cl s) = micEnabled s"
  "started (startListening cl s) = started s"
  "messages (startListening cl s) = messages s"
  "requests (startListening cl s) = requests s"
  "thinkingAbortRef (startListening cl s) = thinkingAbortRef s"
  "recognitions (startListening cl s) = recognitions s"
  by (simp_all add: startListening_def)

lemma startListening_phase:
  "phase (startListening cl s) = phase s \<or> phase (startListening cl s) = Error"
  by (simp add: startListening_def)

lemma startListening_permission_frame [simp]:
  "micEnabledRef (startListening_permission cl g th s) = micEnabledRef s"
  "micEnabled (startListening_permission cl g th s) = micEnabled s"
  "started (startListening_permission cl g th s) = started s"
  "messages (startListening_permission cl g th s) = messages s"
  "requests (startListening_permission cl g th s) = requests s"
  "thinkingAbortRef (startListening_permission cl g th s) = thinkingAbortRef s"
  "tasks (startListening_permission cl g th s) = tasks s"
  by (simp_all add: startListening_permission_def Let_def)

lemma startListening_permission_phase:
  "phase (startListening_permission cl g th s) = phase s \<or>
   phase (startListening_permission cl g th s) = Error"
  by (simp add: startListening_permission_def Let_def)

lemma rec_onstart_frame [simp]:
  "phase (rec_onstart s) = phase s"
  "micEnabledRef (rec_onstart s) = micEnabledRef s"
  "micEnabled (rec_onstart s) = micEnabled s"
  "started (rec_onstart s) = started s"
  "messages (rec_onstart s) = messages s"
  "requests (rec_onstart s) = requests s"
  "thinkingAbortRef (rec_onstart s) = thinkingAbortRef s"
  "tasks (rec_onstart s) = tasks s"
  "recognitions (rec_onstart s) = recognitions s"
  by (simp_all add: rec_onstart_def)

lemma rec_onresult_frame [simp]:
  "phase (rec_onresult tr s) = phase s"
  "micEnabledRef (rec_onresult tr s) = micEnabledRef s"
  "micEnabled (rec_onresult tr s) = micEnabled s"
  "started (rec_onresult tr s) = started s"
  "messages (rec_onresult tr s) = messages s"
  "requests (rec_onresult tr s) = requests s"
  "thinkingAbortRef (rec_onresult tr s) = thinkingAbortRef s"
  "tasks (rec_onresult tr s) = tasks s"
  "recognitions (rec_onresult tr s) = recognitions s"
  by (simp_all add: rec_onresult_def)

lemma rec_onerror_frame [simp]:
  "phase (rec_onerror e m s) = Error"
  "micEnabledRef (rec_onerror e m s) = micEnabledRef s"
  "micEnabled (rec_onerror e m s) = micEnabled s"
  "started (rec_onerror e m s) = started s"
  "messages (rec_onerror e m s) = messages s"
  "requests (rec_onerror e m s) = requests s"
  "thinkingAbortRef (rec_onerror e m s) = thinkingAbortRef s"
  "tasks (rec_onerror e m s) = tasks s"
  "recognitions (rec_onerror e m s) = recognitions s"
  by (simp_all add: rec_onerror_def)

lemma rec_onend_frame [simp]:
  "micEnabledRef (rec_onend cl st s) = micEnabledRef s"
  "micEnabled (rec_onend cl st s) = micEnabled s"
  "started (rec_onend cl st s) = started s"
  by (simp_all add: rec_onend_def Let_def)

lemma rec_onend_phase:
  "phase (rec_onend cl st s) = (if trim (lastTranscriptRef s) = [] then phase s else Thinking)"
  by (simp add: rec_onend_def Let_def)

lemma effect_boot_frame [simp]:
  "phase (effect_boot s) = (if started s then Booting else Locked)"
  "micEnabledRef (effect_boot s) = micEnabledRef s"
  "micEnabled (effect_boot s) = micEnabled s"
  "started (effect_boot s) = started s"
  "messages (effect_boot s) = messages s"
  "requests (effect_boot s) = requests s"
  "thinkingAbortRef (effect_boot s) = thinkingAbortRef s"
  "recognitions (effect_boot s) = recognitions s"
  by (simp_all add: effect_boot_def)

lemma effect_boot_cleanup_frame [simp]:
  "phase (effect_boot_cleanup s) = phase s"
  "micEnabledRef (effect_boot_cleanup s) = micEnabledRef s"
  "micEnabled (effect_boot_cleanup s) = micEnabled s"
  "started (effect_boot_cleanup s) = started s"
  "messages (effect_boot_cleanup s) = messages s"
  "requests (effect_boot_cleanup s) = requests s"
  "thinkingAbortRef (effect_boot_cleanup s) = thinkingAbortRef s"
  "recognitions (effect_boot_cleanup s) = recognitions s"
  "error (effect_boot_cleanup s) = error s"
  by (simp_all add: effect_boot_cleanup_def)

lemma boot_done_frame [simp]:
  "phase (boot_done s) = (if micEnabledRef s then Listening else Idle)"
  "micEnabledRef (boot_done s) = micEnabledRef s"
  "micEnabled (boot_done s) = micEnabled s"
  "started (boot_done s) = started s"
  "messages (boot_done s) = messages s"
  "requests (boot_done s) = requests s"
  "thinkingAbortRef (boot_done s) = thinkingAbortRef s"
  "tasks (boot_done s) = tasks s"
  "recognitions (boot_done s) = recognitions s"
  "error (boot_done s) = error s"
  by (simp_all add: boot_done_def)

lemma effect_mic_frame [simp]:
  "micEnabledRef (effect_mic s) = micEnabled s"
  "micEnabled (effect_mic s) = micEnabled s"
  "started (effect_mic s) = started s"
  "messages (effect_mic s) = messages s"
  "requests (effect_mic s) = requests s"
  "thinkingAbortRef (effect_mic s) = thinkingAbortRef s"
  "tasks (effect_mic s) = tasks s"
  "error (effect_mic s) = error s"
  by (simp_all add: effect_mic_def Let_def)

lemma effect_mic_phase:
  "phase (effect_mic s) =
     (if micEnabled s then (if phase s = Idle then Listening else phase s)
      else if phase s = Thinking \<or> phase s = Speaking \<or> phase s = Error then phase s
      else if started s then Idle else Locked)"
  by (simp add: effect_mic_def Let_def)

lemma effect_listen_frame [simp]:
  "phase (effect_listen p s) = phase s"
  "micEnabledRef (effect_listen p s) = micEnabledRef s"
  "micEnabled (effect_listen p s) = micEnabled s"
  "started (effect_listen p s) = started s"
  "messages (effect_listen p s) = messages s"
  "requests (effect_listen p s) = requests s"
  "thinkingAbortRef (effect_listen p s) = thinkingAbortRef s"
  "error (effect_listen p s) = error s"
  by (simp_all add: effect_listen_def)

lemma effect_listen_cleanup_frame [simp]:
  "phase (effect_listen_cleanup s) = phase s"
  "micEnabledRef (effect_listen_cleanup s) = micEnabledRef s"
  "micEnabled (effect_listen_cleanup s) = micEnabled s"
  "started (effect_listen_cleanup s) = started s"
  "messages (effect_listen_cleanup s) = messages s"
  "requests (effect_listen_cleanup s) = requests s"
  "thinkingAbortRef (effect_listen_cleanup s) = thinkingAbortRef s"
  "recognitions (effect_listen_cleanup s) = recognitions s"
  "error (effect_listen_cleanup s) = error s"
  "tasks (effect_listen_cleanup s) = filter (\<lambda>t. \<not> is_settle t) (tasks s)"
  by (simp_all add: effect_listen_cleanup_def)

lemma rerender_frame [simp]:
  "phase (rerender p s) = phase s"
  "micEnabledRef (rerender p s) = micEnabledRef s"
  "micEnabled (rerender p s) = micEnabled s"
  "started (rerender p s) = started s"
  "messages (rerender p s) = messages s"
  "requests (rerender p s) = requests s"
  "thinkingAbortRef (rerender p s) = thinkingAbortRef s"
  "error (rerender p s) = error s"
  by (simp_all add: rerender_def)

lemma retry_frame [simp]:
  "phase (retry s) = (if micEnabledRef s then Listening else Idle)"
  "micEnabledRef (retry s) = micEnabledRef s"
  "micEnabled (retry s) = micEnabled s"
  "started (retry s) = started s"
  "messages (retry s) = messages s"
  "requests (retry s) = requests s"
  "thinkingAbortRef (retry s) = thinkingAbortRef s"
  "tasks (retry s) = tasks s"
  "recognitions (retry s) = recognitions s"
  "error (retry s) = None"
  by (simp_all add: retry_def)

section \<open>The mic flag and the phase\<close>

lemma inv_mic_tasks [simp]: "inv_mic (s\<lparr>tasks := xs\<rparr>) = inv_mic s"
  by (simp add: inv_mic_def)

lemma inv_mic_set_props: "inv_mic s \<Longrightarrow> inv_mic (set_props st me s)"
  by (auto simp: inv_mic_def set_props_def Let_def effect_mic_phase)

lemma inv_mic_startListening: "inv_mic s \<Longrightarrow> inv_mic (startListening cl s)"
  using startListening_phase [of cl s] by (auto simp: inv_mic_def)

lemma inv_mic_permission: "inv_mic s \<Longrightarrow> inv_mic (startListening_permission cl g th s)"
  using startListening_permission_phase [of cl g th s] by (auto simp: inv_mic_def)

lemma inv_mic_fire: "inv_mic s \<Longrightarrow> inv_mic (fire t s)"
  by (cases t) (auto simp: inv_mic_startListening, auto simp: inv_mic_def)

lemma inv_mic_settled: "inv_mic s \<Longrightarrow> inv_mic (callBackend_settled i res st s)"
  by (auto simp: inv_mic_def callBackend_settled_def Let_def split: sum.splits)

lemma inv_mic_onend: "inv_mic s \<Longrightarrow> inv_mic (rec_onend cl st s)"
  by (auto simp: inv_mic_def rec_onend_phase)

lemma inv_mic_sendText: "inv_mic s \<Longrightarrow> inv_mic (sendText t st s)"
  by (auto simp: inv_mic_def sendText_def Let_def)

lemma inv_mic_handle:
  assumes "inv_mic s"
  shows "inv_mic (handle ev s)"
proof (cases ev)
  case (Props st me)
  with assms show ?thesis by (simp add: inv_mic_set_props)
next
  case (TimerFired t)
  with assms show ?thesis by (simp add: inv_mic_fire)
next
  case (PermissionSettled cl g th)
  with assms show ?thesis by (simp add: inv_mic_permission)
next
  case (RecEnd r st)
  with assms show ?thesis by (simp add: inv_mic_onend split: option.splits)
next
  case (FetchSettled i res st)
  with assms show ?thesis by (simp add: inv_mic_settled)
next
  case (SendText t st)
  with assms show ?thesis by (simp add: inv_mic_sendText)
qed (use assms in \<open>auto simp: inv_mic_def split: option.splits\<close>)

lemma inv_mic_step:
  assumes "inv_mic s"
  shows "inv_mic (step ev s)"
proof -
  from assms have "inv_mic (handle ev s)" by (rule inv_mic_handle)
  then show ?thesis by (auto simp: step_def inv_mic_def)
qed

lemma inv_mic_run: "inv_mic s \<Longrightarrow> inv_mic (run s evs)"
proof (induction evs arbitrary: s)
  case Nil
  then show ?case by (simp add: run_def)
next
  case (Cons e evs)
  from Cons.prems have "inv_mic (step e s)" by (rule inv_mic_step)
  then have "inv_mic (run (step e s) evs)" by (rule Cons.IH)
  then show ?case by (simp add: run_def)
qed

lemma inv_mic_init: "inv_mic (init st me sr tts)"
  by (simp add: init_def mount_def inv_mic_def effect_mic_phase)

section \<open>Closures of pending recognitions\<close>






lemma inv_cl_pushMessage [simp]: "inv_cl (pushMessage r c st s) = inv_cl s"
  by (simp add: inv_cl_def)

lemma inv_cl_update [simp]:
  "inv_cl (s\<lparr>phase := p\<rparr>) = inv_cl s"
  "inv_cl (s\<lparr>started := b\<rparr>) = inv_cl s"
  "inv_cl (s\<lparr>micEnabled := b\<rparr>) = inv_cl s"
  "inv_cl (s\<lparr>micEnabledRef := b\<rparr>) = inv_cl s"
  "inv_cl (s\<lparr>micActive := b\<rparr>) = inv_cl s"
  "inv_cl (s\<lparr>speakingRef := b\<rparr>) = inv_cl s"
  "inv_cl (s\<lparr>error := e\<rparr>) = inv_cl s"
  "inv_cl (s\<lparr>requests := rq\<rparr>) = inv_cl s"
  "inv_cl (s\<lparr>lastTranscriptRef := l\<rparr>) = inv_cl s"
  by (simp_all add: inv_cl_def)
























section \<open>Requests in flight\<close>

lemma abort_previous_length [simp]:
  "length (requests (abort_previous s)) = length (requests s)"
  by (simp add: abort_previous_def split: option.splits)

lemma abort_previous_clears:
  assumes "inv_req s" "i < length (requests s)"
  shows "\<not> in_flight (requests (abort_previous s) ! i)"
proof (cases "thinkingAbortRef s")
  case None
  with assms show ?thesis by (auto simp: inv_req_def abort_previous_def)
next
  case (Some j)
  show ?thesis
  proof (cases "i = j")
    case True
    with Some assms show ?thesis by (simp add: abort_previous_def in_flight_def)
  next
    case False
    with Some assms show ?thesis by (auto simp: inv_req_def abort_previous_def)
  qed
qed

lemma callBackend_in_flight:
  assumes "inv_req s" "i < length (requests (callBackend t cl s))"
  shows "in_flight (requests (callBackend t cl s) ! i) \<longleftrightarrow> i = length (requests s)"
proof (cases "i < length (requests s)")
  case True
  with assms(1) have "\<not> in_flight (requests (abort_previous s) ! i)"
    by (simp add: abort_previous_clears)
  with True show ?thesis by (simp add: callBackend_requests nth_append)
next
  case False
  with assms(2) have "i = length (requests s)" by (simp add: callBackend_requests)
  then show ?thesis by (simp add: callBackend_requests nth_append in_flight_def)
qed

lemma inv_req_callBackend: "inv_req s \<Longrightarrow> inv_req (callBackend t cl s)"
  using callBackend_in_flight [of s _ t cl] by (simp add: inv_req_def)

lemma inv_req_settled:
  assumes "inv_req s"
  shows "inv_req (callBackend_settled i res st s)"
proof -
  let ?s1 = "s\<lparr>requests := (requests s)[i := (requests s ! i)\<lparr>req_settled := True\<rparr>]\<rparr>"
  have "inv_req ?s1"
    unfolding inv_req_def
  proof (intro allI impI)
    fix k
    assume k: "k < length (requests ?s1)" and f: "in_flight (requests ?s1 ! k)"
    from f k have "k \<noteq> i" by (auto simp: in_flight_def)
    with k f assms show "thinkingAbortRef ?s1 = Some k" by (simp add: inv_req_def)
  qed
  moreover have "requests (callBackend_settled i res st s) = requests ?s1"
    "thinkingAbortRef (callBackend_settled i res st s) = thinkingAbortRef ?s1"
    by (simp_all add: callBackend_settled_def Let_def split: sum.splits)
  ultimately show ?thesis by (simp add: inv_req_def)
qed

lemma inv_req_onend: "inv_req s \<Longrightarrow> inv_req (rec_onend cl st s)"
proof -
  assume a: "inv_req s"
  let ?t = "trim (lastTranscriptRef s)"
  let ?s2 = "pushMessage User ?t st (s\<lparr>micActive := False\<rparr>)"
  from a have "inv_req ?s2" by (simp add: inv_req_def)
  then have "inv_req (callBackend ?t cl ?s2)" by (rule inv_req_callBackend)
  with a show ?thesis by (simp add: rec_onend_def Let_def inv_req_def)
qed

lemma inv_req_sendText: "inv_req s \<Longrightarrow> inv_req (sendText t st s)"
proof -
  assume a: "inv_req s"
  let ?cl = "\<lparr>c_phase = phase s, c_messages = messages s\<rparr>"
  from a have "inv_req (pushMessage User (trim t) st s)" by (simp add: inv_req_def)
  then have "inv_req (callBackend (trim t) ?cl (pushMessage User (trim t) st s))"
    by (rule inv_req_callBackend)
  with a show ?thesis by (simp add: sendText_def Let_def)
qed

lemma set_props_requests [simp]:
  "requests (set_props a b s) = requests s"
  "thinkingAbortRef (set_props a b s) = thinkingAbortRef s"
  "messages (set_props a b s) = messages s"
  by (simp_all add: set_props_def Let_def)

lemma fire_requests [simp]: "requests (fire t s) = requests s"
  by (cases t) simp_all

lemma fire_thinkingAbortRef [simp]: "thinkingAbortRef (fire t s) = thinkingAbortRef s"
  by (cases t) simp_all

lemma fire_messages [simp]: "messages (fire t s) = messages s"
  by (cases t) simp_all

lemma inv_req_handle:
  assumes "inv_req s"
  shows "inv_req (handle ev s)"
proof (cases ev)
  case (RecEnd r st)
  with assms show ?thesis by (simp add: inv_req_onend split: option.splits)
next
  case (FetchSettled i res st)
  from assms have "inv_req (s\<lparr>tasks := remove1 (AwaitFetch i) (tasks s)\<rparr>)"
    by (simp add: inv_req_def)
  with FetchSettled assms show ?thesis by (simp add: inv_req_settled)
next
  case (SendText t st)
  with assms show ?thesis by (simp add: inv_req_sendText)
qed (use assms in \<open>simp_all add: inv_req_def split: option.splits\<close>)

lemma inv_req_step: "inv_req s \<Longrightarrow> inv_req (step ev s)"
  using inv_req_handle [of s ev] by (simp add: step_def inv_req_def)

lemma inv_req_run: "inv_req s \<Longrightarrow> inv_req (run s evs)"
proof (induction evs arbitrary: s)
  case Nil
  then show ?case by (simp add: run_def)
next
  case (Cons e evs)
  from Cons.prems have "inv_req (step e s)" by (rule inv_req_step)
  then have "inv_req (run (step e s) evs)" by (rule Cons.IH)
  then show ?case by (simp add: run_def)
qed

lemma inv_req_init: "inv_req (init st me sr tts)"
  by (simp add: inv_req_def init_def mount_def initial_def)

lemma at_most_one:
  "(\<forall>i<length xs. P (xs ! i) \<longrightarrow> i = k) \<Longrightarrow> length (filter P xs) \<le> 1"
proof (induction xs arbitrary: k)
  case Nil
  then show ?case by simp
next
  case (Cons x xs)
  show ?case
  proof (cases k)
    case 0
    have "filter P xs = []"
    proof (rule ccontr)
      assume "filter P xs \<noteq> []"
      then obtain y where "y \<in> set xs" "P y"
        by (metis filter_False)
      then obtain j where "j < length xs" "xs ! j = y" by (auto simp: in_set_conv_nth)
      with \<open>P y\<close> Cons.prems [rule_format, of "Suc j"] 0 show False by simp
    qed
    then show ?thesis by simp
  next
    case (Suc k')
    from Cons.prems [rule_format, of 0] Suc have "\<not> P x" by auto
    moreover have "\<forall>i<length xs. P (xs ! i) \<longrightarrow> i = k'"
      using Cons.prems [rule_format, of "Suc _"] Suc by auto
    then have "length (filter P xs) \<le> 1" by (rule Cons.IH)
    ultimately show ?thesis by simp
  qed
qed

lemma inv_req_count: "inv_req s \<Longrightarrow> length (filter in_flight (requests s)) \<le> 1"
proof (cases "thinkingAbortRef s")
  case None
  assume "inv_req s"
  with None have "\<forall>i<length (requests s). in_flight (requests s ! i) \<longrightarrow> i = 0"
    by (simp add: inv_req_def)
  then show ?thesis by (rule at_most_one)
next
  case (Some k)
  assume "inv_req s"
  with Some have "\<forall>i<length (requests s). in_flight (requests s ! i) \<longrightarrow> i = k"
    by (auto simp: inv_req_def)
  then show ?thesis by (rule at_most_one)
qed

section \<open>Trimming and the message list\<close>

lemma pushMessage_messages [simp]:
  "messages (pushMessage r c st s) = messages s @ [new_message r c st]"
  by (simp add: pushMessage_def)

lemma new_message_sel [simp]:
  "role (new_message r c st) = r"
  "content (new_message r c st) = c"
  "ts (new_message r c st) = now_ts st"
  by (simp_all add: new_message_def)

lemma trim_empty_iff: "trim t = [] \<longleftrightarrow> (\<forall>c\<in>set t. js_whitespace c)"
proof -
  have "trim t = [] \<longleftrightarrow> (\<forall>c\<in>set (dropWhile js_whitespace t). js_whitespace c)"
    by (simp add: trim_def dropWhile_eq_Nil_conv)
  also have "\<dots> \<longleftrightarrow> dropWhile js_whitespace t = []"
  proof
    assume a: "\<forall>c\<in>set (dropWhile js_whitespace t). js_whitespace c"
    show "dropWhile js_whitespace t = []"
    proof (rule ccontr)
      assume ne: "dropWhile js_whitespace t \<noteq> []"
      then have "\<not> js_whitespace (hd (dropWhile js_whitespace t))" by (rule hd_dropWhile)
      moreover from ne have "hd (dropWhile js_whitespace t) \<in> set (dropWhile js_whitespace t)"
        by simp
      ultimately show False using a by blast
    qed
  qed (auto dest: set_dropWhileD)
  also have "\<dots> \<longleftrightarrow> (\<forall>c\<in>set t. js_whitespace c)"
    by (simp add: dropWhile_eq_Nil_conv)
  finally show ?thesis .
qed

lemma clock_readings_Nil [simp]: "clock_readings [] = []"
  by (simp add: clock_readings_def map_filter_simps)

lemma clock_readings_Cons:
  "clock_readings (e # evs) =
     (case event_stamp e of None \<Rightarrow> [] | Some st \<Rightarrow> [now_ts st]) @ clock_readings evs"
  by (simp add: clock_readings_def map_filter_simps split: option.splits)

lemma rec_onend_messages:
  "messages (rec_onend cl st s) =
     (if trim (lastTranscriptRef s) = [] then messages s
      else messages s @ [new_message User (trim (lastTranscriptRef s)) st])"
  by (simp add: rec_onend_def Let_def)

lemma sendText_messages:
  "messages (sendText t st s) =
     (if trim t = [] then messages s else messages s @ [new_message User (trim t) st])"
  by (simp add: sendText_def Let_def)

lemma settled_messages:
  "messages (callBackend_settled i res st s) =
     (case read_reply res of
        Inl e \<Rightarrow> messages s
      | Inr reply \<Rightarrow> messages s @ [new_message Assistant reply st])"
  by (simp add: callBackend_settled_def Let_def split: sum.splits)

lemma handle_messages:
  "messages (handle ev s) = messages s \<or>
   (\<exists>r c st. event_stamp ev = Some st \<and> messages (handle ev s) = messages s @ [new_message r c st])"
proof (cases ev)
  case (RecEnd r st)
  then show ?thesis by (auto simp: rec_onend_messages split: option.splits)
next
  case (FetchSettled i res st)
  then show ?thesis by (auto simp: settled_messages split: sum.splits)
next
  case (SendText t st)
  then show ?thesis by (auto simp: sendText_messages)
qed (simp_all split: option.splits)

lemma step_messages:
  "messages (step ev s) = messages s \<or>
   (\<exists>r c st. event_stamp ev = Some st \<and> messages (step ev s) = messages s @ [new_message r c st])"
  using handle_messages [of ev s] by (simp add: step_def)

lemma run_Cons: "run s (e # evs) = run (step e s) evs"
  by (simp add: run_def)

lemma run_Nil: "run s [] = s"
  by (simp add: run_def)

lemma run_messages_prefix: "\<exists>new. messages (run s evs) = messages s @ new"
proof (induction evs arbitrary: s)
  case Nil
  then show ?case by (simp add: run_Nil)
next
  case (Cons e evs)
  from Cons.IH [of "step e s"] obtain new where
    n: "messages (run (step e s) evs) = messages (step e s) @ new" by blast
  from step_messages [of e s] obtain one where "messages (step e s) = messages s @ one"
    by auto
  with n show ?case by (simp add: run_Cons)
qed

lemma run_messages_sorted:
  "sorted (map ts (messages s) @ clock_readings evs) \<Longrightarrow> sorted (map ts (messages (run s evs)))"
proof (induction evs arbitrary: s)
  case Nil
  then show ?case by (simp add: run_Nil)
next
  case (Cons e evs)
  have "sorted (map ts (messages (step e s)) @ clock_readings evs)"
    using step_messages [of e s]
  proof
    assume "messages (step e s) = messages s"
    with Cons.prems show ?thesis
      by (auto simp: clock_readings_Cons sorted_append split: option.splits)
  next
    assume "\<exists>r c st. event_stamp e = Some st \<and>
      messages (step e s) = messages s @ [new_message r c st]"
    then obtain r c st where "event_stamp e = Some st"
      "messages (step e s) = messages s @ [new_message r c st]" by blast
    with Cons.prems show ?thesis by (simp add: clock_readings_Cons)
  qed
  then have "sorted (map ts (messages (run (step e s) evs)))" by (rule Cons.IH)
  then show ?case by (simp add: run_Cons)
qed

lemma init_messages [simp]: "messages (init st me sr tts) = []"
  by (simp add: init_def mount_def initial_def)

section \<open>Recognition objects and the capability\<close>

lemma stop_sr [simp]:
  "supportsSpeechRecognition (stopListeningHard s) = supportsSpeechRecognition s"
  "length (recognitions (stopListeningHard s)) = length (recognitions s)"
  by (simp_all add: stopListeningHard_def Let_def split: option.splits)

lemma inv_sr_stop [simp]: "inv_sr (stopListeningHard s) = inv_sr s"
proof -
  have "(recognitions (stopListeningHard s) = []) = (recognitions s = [])"
    using stop_sr(2) [of s] by (metis length_0_conv)
  then show ?thesis by (simp add: inv_sr_def)
qed

lemma inv_sr_update [simp]:
  "inv_sr (s\<lparr>phase := p\<rparr>) = inv_sr s"
  "inv_sr (s\<lparr>started := b\<rparr>) = inv_sr s"
  "inv_sr (s\<lparr>micEnabled := b\<rparr>) = inv_sr s"
  "inv_sr (s\<lparr>micEnabledRef := b\<rparr>) = inv_sr s"
  "inv_sr (s\<lparr>micActive := b\<rparr>) = inv_sr s"
  "inv_sr (s\<lparr>speakingRef := b\<rparr>) = inv_sr s"
  "inv_sr (s\<lparr>error := e\<rparr>) = inv_sr s"
  "inv_sr (s\<lparr>requests := rq\<rparr>) = inv_sr s"
  "inv_sr (s\<lparr>lastTranscriptRef := l\<rparr>) = inv_sr s"
  "inv_sr (s\<lparr>tasks := tk\<rparr>) = inv_sr s"
  "inv_sr (s\<lparr>thinkingAbortRef := a\<rparr>) = inv_sr s"
  "inv_sr (s\<lparr>messages := ms\<rparr>) = inv_sr s"
  by (simp_all add: inv_sr_def)

lemma inv_sr_helpers [simp]:
  "inv_sr (pushMessage r c st s) = inv_sr s"
  "inv_sr (speak t s) = inv_sr s"
  "inv_sr (speak_resume s) = inv_sr s"
  "inv_sr (utterance_onstart s) = inv_sr s"
  "inv_sr (utterance_done s) = inv_sr s"
  "inv_sr (callBackend t cl s) = inv_sr s"
  "inv_sr (startListening cl s) = inv_sr s"
  "inv_sr (rec_onstart s) = inv_sr s"
  "inv_sr (rec_onresult tr s) = inv_sr s"
  "inv_sr (rec_onerror e m s) = inv_sr s"
  "inv_sr (effect_boot s) = inv_sr s"
  "inv_sr (effect_boot_cleanup s) = inv_sr s"
  "inv_sr (boot_done s) = inv_sr s"
  "inv_sr (effect_mic s) = inv_sr s"
  "inv_sr (effect_listen p s) = inv_sr s"
  "inv_sr (effect_listen_cleanup s) = inv_sr s"
  "inv_sr (retry s) = inv_sr s"
  by (simp_all add: pushMessage_def speak_def speak_resume_def utterance_onstart_def
        utterance_done_def callBackend_def issue_fetch_def store_controller_def
        abort_previous_def startListening_def rec_onstart_def rec_onresult_def rec_onerror_def
        effect_boot_def effect_boot_cleanup_def boot_done_def effect_mic_def effect_listen_def
        effect_listen_cleanup_def retry_def Let_def split: option.splits)

lemma inv_sr_more [simp]:
  "inv_sr (callBackend_settled i res st s) = inv_sr s"
  "inv_sr (rec_onend cl st s) = inv_sr s"
  "inv_sr (sendText t st s) = inv_sr s"
  "inv_sr (rerender p s) = inv_sr s"
  "inv_sr (set_props a b s) = inv_sr s"
  by (simp_all add: callBackend_settled_def rec_onend_def sendText_def rerender_def
        set_props_def Let_def split: sum.splits)

lemma inv_sr_fire [simp]: "inv_sr (fire t s) = inv_sr s"
  by (cases t) simp_all







section \<open>The voice loop: claims\<close>

text \<open>
  On the way into \<open>thinking\<close> and into \<open>speaking\<close> the recognition in
  \<open>recognitionRef\<close> is stopped: its handlers are detached and \<open>micActive\<close> is cleared.
\<close>

lemma stop_current:
  assumes "recognitionRef s = Some r" "r < length (recognitions s)"
  shows "micActive (stopListeningHard s) = False \<and>
         rec_handlers (recognitions (stopListeningHard s) ! r) = None \<and>
         rec_aborted (recognitions (stopListeningHard s) ! r)"
  using assms by (simp add: stopListeningHard_def Let_def)

lemma entering_stops_capture:
  assumes "recognitionRef s = Some r" "r < length (recognitions s)"
  shows "micActive (callBackend t cl s) = False \<and> handler_of r (callBackend t cl s) = None \<and>
         micActive (speak t s) = False \<and> handler_of r (speak t s) = None"
proof -
  have "recognitions (callBackend t cl s) = recognitions (stopListeningHard s)"
    "micActive (callBackend t cl s) = micActive (stopListeningHard s)"
    "recognitions (speak t s) = recognitions (stopListeningHard s)"
    "micActive (speak t s) = micActive (stopListeningHard s)"
    by (simp_all add: callBackend_def speak_def issue_fetch_def store_controller_def
          abort_previous_def Let_def split: option.splits)
  with stop_current [OF assms] assms(2) show ?thesis
    by (simp add: handler_of_def)
qed

text \<open>
  Claim C1. The phase is a single value, but what the phases stand for can overlap. In
  the first run the phase is \<open>thinking\<close>, with the reply request in flight, while a
  recognition is live: it was started after \<open>callBackend\<close> had stopped capture, by a
  \<open>startListening\<close> that was waiting for the microphone permission and checks neither
  the phase nor the mic flag again once it has it, and the mic is switched off by the
  user. In the second run the phase is \<open>listening\<close> while an utterance is being spoken:
  \<open>retry\<close> sets the phase whatever \<open>speakingRef\<close> says.
\<close>

theorem capture_live_while_thinking:
  "phase (run (init False True True True) prompt_then_text) = Thinking \<and>
   map in_flight (requests (run (init False True True True) prompt_then_text)) = [True] \<and>
   micActive (run (init False True True True) prompt_then_text) \<and>
   recognitionRef (run (init False True True True) prompt_then_text) = Some 0 \<and>
   recognitions (run (init False True True True) prompt_then_text) =
     [\<lparr>rec_handlers = Some listening_closure, rec_aborted = False\<rparr>] \<and>
   micEnabled (run (init False True True True) prompt_then_text) = False \<and>
   phase (run (init False True True True) retry_while_speaking) = Listening \<and>
   speakingRef (run (init False True True True) retry_while_speaking) \<and>
   AwaitUtterance (ascii ''Lights are on.'') \<in>
     set (tasks (run (init False True True True) retry_while_speaking))"
  by code_simp

lemma rerender_same [simp]: "rerender (phase s) s = s"
  by (simp add: rerender_def)

text \<open>
  Claim C10. For a text that is empty or consists of whitespace only, \<open>sendText\<close>
  returns the state it was given, and so does the whole reaction to the call: no
  message, no request, and the phase and the error are as before.
\<close>

theorem sendText_blank_noop:
  assumes "\<forall>c\<in>set text. js_whitespace c"
  shows "sendText text st s = s \<and> step (SendText text st) s = s"
proof -
  from assms have "trim text = []" by (simp add: trim_empty_iff)
  then have "sendText text st s = s" by (simp add: sendText_def)
  then show ?thesis by (simp add: step_def)
qed

text \<open>A space, a tab, a line feed and a no-break space; and the empty text.\<close>

theorem sendText_blank_noop_witness:
  "list_all js_whitespace [32, 9, 10, 160] \<and>
   step (SendText [32, 9, 10, 160] (demo_stamp 7)) (run (init False True True True) to_text_mode) =
     run (init False True True True) to_text_mode \<and>
   step (SendText [] (demo_stamp 7)) (run (init False True True True) to_text_mode) =
     run (init False True True True) to_text_mode"
proof -
  have l: "list_all js_whitespace [32, 9, 10, 160]" by (simp add: js_whitespace_def)
  then have a: "\<forall>c\<in>set [32, 9, 10, 160]. js_whitespace c" by (simp only: list_all_iff)
  have b: "\<forall>c\<in>set ([]::int list). js_whitespace c" by simp
  from sendText_blank_noop [OF a] sendText_blank_noop [OF b] l show ?thesis by blast
qed

lemma trim_Nil [simp]: "trim [] = []"
  by (simp add: trim_def)

lemma reply_failure_iff: "reply_failure res \<longleftrightarrow> (\<exists>e. read_reply res = Inl e)"
proof (cases res)
  case (Rejected e)
  then show ?thesis by simp
next
  case (Responded code tx js)
  then show ?thesis
    by (cases js; cases tx) (auto simp: Let_def split: reply_field.splits)
qed

lemma settled_failure:
  assumes "read_reply res = Inl e"
  shows "callBackend_settled i res st s =
    s\<lparr>requests := (requests s)[i := (requests s ! i)\<lparr>req_settled := True\<rparr>],
      error := Some (connection_error e), phase := Error\<rparr>"
  using assms by (simp add: callBackend_settled_def)

text \<open>
  Claim C2. When the continuation of a pending reply request receives a failed reply,
  the phase becomes \<open>error\<close>, the error shown has the title
  "Connection / response error", and the message list is the one from before. Issuing
  a request does not change the message list either.
\<close>

theorem reply_failure_error:
  assumes "AwaitFetch i \<in> set (tasks s)" and "reply_failure res"
  shows "phase (step (FetchSettled i res st) s) = Error \<and>
         map_option title (error (step (FetchSettled i res st) s)) =
           Some (ascii ''Connection / response error'') \<and>
         messages (step (FetchSettled i res st) s) = messages s \<and>
         messages (callBackend text cl s0) = messages s0"
proof -
  from assms(2) obtain e where "read_reply res = Inl e" by (auto simp: reply_failure_iff)
  with assms(1) show ?thesis
    by (simp add: step_def settled_failure connection_error_def)
qed

text \<open>A status 500, a reply of three spaces, and a rejected fetch.\<close>

theorem reply_failure_error_witness:
  "AwaitFetch 0 \<in> set (tasks (run (init False True True True) to_thinking)) \<and>
   reply_failure http_500 \<and> reply_failure blank_reply \<and> reply_failure (Rejected NonError) \<and>
   phase (step (FetchSettled 0 http_500 (demo_stamp 200))
            (run (init False True True True) to_thinking)) = Error \<and>
   messages (step (FetchSettled 0 http_500 (demo_stamp 200))
            (run (init False True True True) to_thinking)) =
     messages (run (init False True True True) to_thinking) \<and>
   phase (step (FetchSettled 0 blank_reply (demo_stamp 200))
            (run (init False True True True) to_thinking)) = Error \<and>
   phase (step (FetchSettled 0 (Rejected NonError) (demo_stamp 200))
            (run (init False True True True) to_thinking)) = Error"
proof -
  have a: "AwaitFetch 0 \<in> set (tasks (run (init False True True True) to_thinking))"
    by code_simp
  have b: "reply_failure http_500" "reply_failure blank_reply" "reply_failure (Rejected NonError)"
    by code_simp+
  from reply_failure_error [OF a b(1)] reply_failure_error [OF a b(2)]
    reply_failure_error [OF a b(3)] a b
  show ?thesis by blast
qed

text \<open>
  Claim C4. After every sequence of events at most one request is in flight, that is
  neither aborted nor settled. \<open>callBackend\<close> aborts the controller in
  \<open>thinkingAbortRef\<close> before it stores the new one: after that step no request is in
  flight; the new request is added to that list, \<open>thinkingAbortRef\<close> points to it, and
  it is the only one in flight.
\<close>

theorem single_pending_request:
  "length (filter in_flight (requests (run (init st me sr tts) evs))) \<le> 1 \<and>
   filter in_flight (requests (abort_previous (run (init st me sr tts) evs))) = [] \<and>
   thinkingAbortRef (callBackend text cl (run (init st me sr tts) evs)) =
     Some (length (requests (run (init st me sr tts) evs))) \<and>
   requests (callBackend text cl (run (init st me sr tts) evs)) =
     requests (abort_previous (run (init st me sr tts) evs)) @
       [\<lparr>req_text = text, req_messages = c_messages cl,
         req_aborted = False, req_settled = False\<rparr>] \<and>
   filter in_flight (requests (callBackend text cl (run (init st me sr tts) evs))) =
     [\<lparr>req_text = text, req_messages = c_messages cl,
       req_aborted = False, req_settled = False\<rparr>]"
proof -
  let ?s = "run (init st me sr tts) evs"
  have inv: "inv_req ?s" by (intro inv_req_run inv_req_init)
  have none: "filter in_flight (requests (abort_previous ?s)) = []"
    using abort_previous_clears [OF inv]
    by (auto simp: filter_empty_conv in_set_conv_nth)
  from inv have "length (filter in_flight (requests ?s)) \<le> 1" by (rule inv_req_count)
  with none show ?thesis by (simp add: callBackend_requests in_flight_def)
qed

text \<open>Two texts sent in a row: the first request is aborted, the second is in flight.\<close>

theorem single_pending_request_witness:
  "map in_flight (requests (run (init False True True True) two_sends)) = [False, True] \<and>
   map req_aborted (requests (run (init False True True True) two_sends)) = [True, False] \<and>
   thinkingAbortRef (run (init False True True True) two_sends) = Some 1 \<and>
   length (filter in_flight (requests (run (init False True True True) two_sends))) \<le> 1"
proof -
  have "map in_flight (requests (run (init False True True True) two_sends)) = [False, True]"
    "map req_aborted (requests (run (init False True True True) two_sends)) = [True, False]"
    "thinkingAbortRef (run (init False True True True) two_sends) = Some 1"
    by code_simp+
  with single_pending_request [of False True True True two_sends]
  show ?thesis by blast
qed

lemma rerender_keeps:
  "t \<in> set (tasks s) \<Longrightarrow> \<not> is_settle t \<Longrightarrow> t \<in> set (tasks (rerender p s))"
  by (auto simp: rerender_def effect_listen_def)

lemma settled_success:
  assumes "read_reply res = Inr reply"
  shows "callBackend_settled i res st s =
    speak reply (pushMessage Assistant reply st
      (s\<lparr>requests := (requests s)[i := (requests s ! i)\<lparr>req_settled := True\<rparr>]\<rparr>))"
  using assms by (simp add: callBackend_settled_def)

lemma placeholder_fires:
  assumes "PlaceholderTimer \<in> set (tasks s)"
  shows "phase (step (TimerFired PlaceholderTimer) s) =
           (if micEnabledRef s then Listening else Idle)"
  using assms by (simp add: step_def)

text \<open>
  Claim C6. Without speech synthesis, a reply with status 2xx and a non-empty trimmed
  reply text appends the assistant message and moves the phase to \<open>speaking\<close>, with the
  900 ms placeholder timer pending. When that timer fires the phase becomes
  \<open>listening\<close> if the mic is enabled and \<open>idle\<close> if not.
\<close>

theorem unsupported_speech_completes:
  assumes "s = run (init st me sr tts) evs"
    and "\<not> speechSynthesisAvailable s"
    and "AwaitFetch i \<in> set (tasks s)"
    and "response_ok code" and "trim r \<noteq> []"
    and "s' = step (FetchSettled i (Responded code tx (Inr (ReplyString r))) stmp) s"
  shows "messages s' = messages s @ [new_message Assistant (trim r) stmp] \<and>
         phase s' = Speaking \<and>
         PlaceholderTimer \<in> set (tasks s') \<and>
         delay_ms PlaceholderTimer = Some 900 \<and>
         micEnabled s' = micEnabled s \<and>
         phase (step (TimerFired PlaceholderTimer) s') =
           (if micEnabled s then Listening else Idle)"
proof -
  let ?res = "Responded code tx (Inr (ReplyString r))"
  let ?s0 = "s\<lparr>tasks := remove1 (AwaitFetch i) (tasks s)\<rparr>"
  let ?h = "callBackend_settled i ?res stmp ?s0"
  from assms(4,5) have ok: "read_reply ?res = Inr (trim r)" by (simp add: Let_def)
  from assms(3,6) have s': "s' = rerender (phase s) ?h" by (simp add: step_def)
  have inv: "inv_mic s" unfolding assms(1) by (intro inv_mic_run inv_mic_init)
  have tasks_h: "PlaceholderTimer \<in> set (tasks ?h)"
    using assms(2) by (simp add: settled_success [OF ok])
  have pend: "PlaceholderTimer \<in> set (tasks s')"
    unfolding s' using tasks_h by (rule rerender_keeps) simp
  have ref: "micEnabledRef s' = micEnabledRef s" "micEnabled s' = micEnabled s"
    by (simp_all add: s' settled_success [OF ok])
  have "messages s' = messages s @ [new_message Assistant (trim r) stmp]"
    by (simp add: s' settled_success [OF ok])
  moreover have "phase s' = Speaking" by (simp add: s' settled_success [OF ok])
  moreover from placeholder_fires [OF pend] ref inv
  have "phase (step (TimerFired PlaceholderTimer) s') = (if micEnabled s then Listening else Idle)"
    by (auto simp: inv_mic_def)
  ultimately show ?thesis using pend ref by simp
qed

text \<open>The reply "Lights are on." to "turn on the lights".\<close>

theorem unsupported_speech_completes_witness:
  "\<not> speechSynthesisAvailable (run (init False True True False) to_thinking) \<and>
   AwaitFetch 0 \<in> set (tasks (run (init False True True False) to_thinking)) \<and>
   response_ok 200 \<and> trim (ascii ''Lights are on.'') \<noteq> [] \<and>
   map content (messages (step (FetchSettled 0 lights_reply (demo_stamp 300))
      (run (init False True True False) to_thinking))) =
     [ascii ''turn on the lights'', ascii ''Lights are on.''] \<and>
   phase (step (FetchSettled 0 lights_reply (demo_stamp 300))
      (run (init False True True False) to_thinking)) = Speaking \<and>
   phase (step (TimerFired PlaceholderTimer) (step (FetchSettled 0 lights_reply (demo_stamp 300))
      (run (init False True True False) to_thinking))) = Listening"
proof -
  let ?s = "run (init False True True False) to_thinking"
  let ?s' = "step (FetchSettled 0 lights_reply (demo_stamp 300)) ?s"
  have a: "\<not> speechSynthesisAvailable ?s" by code_simp
  have b: "AwaitFetch 0 \<in> set (tasks ?s)" by code_simp
  have c: "response_ok 200" by code_simp
  have d: "trim (ascii ''Lights are on.'') \<noteq> []" by code_simp
  have e: "map content (messages ?s) = [ascii ''turn on the lights'']" by code_simp
  have f: "trim (ascii ''Lights are on.'') = ascii ''Lights are on.''" by code_simp
  have g: "micEnabled ?s" by code_simp
  have h: "?s' = step (FetchSettled 0
      (Responded 200 (Inl NonError) (Inr (ReplyString (ascii ''Lights are on.'')))) (demo_stamp 300)) ?s"
    by (simp add: lights_reply_def)
  from unsupported_speech_completes [OF refl a b c d h] e f g
  have "map content (messages ?s') = [ascii ''turn on the lights'', ascii ''Lights are on.'']"
    "phase ?s' = Speaking"
    "phase (step (TimerFired PlaceholderTimer) ?s') = Listening"
    by simp_all
  with a b c d show ?thesis by blast
qed




lemma retry_same:
  "error s = None \<Longrightarrow> phase s = (if micEnabledRef s then Listening else Idle) \<Longrightarrow> retry s = s"
  by (cases s) (simp add: retry_def)

text \<open>
  Claim C8. In \<open>listening\<close> or \<open>idle\<close> with no error, \<open>retry\<close> leaves the state as it
  is. In any reachable state it sets the phase the mic flag asks for, clears the error
  and keeps the messages, and a second \<open>retry\<close> changes nothing more.
\<close>

theorem retry_idempotent:
  assumes "s = run (init st me sr tts) evs"
  shows "((phase s = Listening \<or> phase s = Idle) \<and> error s = None \<longrightarrow> step Retry s = s) \<and>
         phase (step Retry s) = (if micEnabled s then Listening else Idle) \<and>
         error (step Retry s) = None \<and>
         messages (step Retry s) = messages s \<and>
         step Retry (step Retry s) = step Retry s"
proof -
  have inv: "inv_mic s" unfolding assms by (intro inv_mic_run inv_mic_init)
  have noop: "step Retry s = s" if "phase s = Listening \<or> phase s = Idle" "error s = None"
  proof -
    from that(1) inv have "phase s = (if micEnabledRef s then Listening else Idle)"
      by (auto simp: inv_mic_def)
    with that(2) have "retry s = s" by (rule retry_same)
    then show ?thesis by (simp add: step_def)
  qed
  have twice: "step Retry (step Retry s) = step Retry s"
  proof -
    let ?s1 = "step Retry s"
    have "error ?s1 = None" "phase ?s1 = (if micEnabledRef ?s1 then Listening else Idle)"
      by (simp_all add: step_def)
    then have "retry ?s1 = ?s1" by (rule retry_same)
    then show ?thesis by (simp add: step_def [of Retry ?s1])
  qed
  from inv have "phase (step Retry s) = (if micEnabled s then Listening else Idle)"
    by (auto simp: step_def inv_mic_def)
  with noop twice show ?thesis by (simp add: step_def)
qed

text \<open>A state in \<open>listening\<close> and a state in \<open>idle\<close>, both without error.\<close>

theorem retry_idempotent_witness:
  "phase (run (init False True True True) to_capture) = Listening \<and>
   error (run (init False True True True) to_capture) = None \<and>
   step Retry (run (init False True True True) to_capture) =
     run (init False True True True) to_capture \<and>
   phase (run (init False True True True) to_text_mode) = Idle \<and>
   error (run (init False True True True) to_text_mode) = None \<and>
   step Retry (run (init False True True True) to_text_mode) =
     run (init False True True True) to_text_mode"
proof -
  have a: "phase (run (init False True True True) to_capture) = Listening"
    "error (run (init False True True True) to_capture) = None"
    "phase (run (init False True True True) to_text_mode) = Idle"
    "error (run (init False True True True) to_text_mode) = None"
    by code_simp+
  from retry_idempotent [OF refl, of False True True True to_capture]
    retry_idempotent [OF refl, of False True True True to_text_mode] a
  show ?thesis by blast
qed

lemma step_RecEnd_messages:
  assumes "handler_of r s = Some cl" "trim (lastTranscriptRef s) \<noteq> []"
  shows "messages (step (RecEnd r stmp) s) =
           messages s @ [new_message User (trim (lastTranscriptRef s)) stmp]"
  using assms by (simp add: step_def rec_onend_messages)

lemma step_SendText_messages:
  assumes "trim text \<noteq> []"
  shows "messages (step (SendText text stmp) s) = messages s @ [new_message User (trim text) stmp]"
  using assms by (simp add: step_def sendText_messages)

lemma step_FetchSettled_messages:
  assumes "AwaitFetch i \<in> set (tasks s)" "read_reply res = Inr reply"
  shows "messages (step (FetchSettled i res stmp) s) =
           messages s @ [new_message Assistant reply stmp]"
  using assms by (simp add: step_def settled_messages)

text \<open>
  Claim C9, as the hook implements it. Over any run the old messages stay a prefix of
  the list, and one event appends at most one message. A recognition that ends with a
  non-empty transcript, a non-empty text sent, and a successful reply each append
  exactly one message at the end. The timestamp of a message is the clock reading of
  the event that appended it, so the timestamps are in non-decreasing order whenever the
  clock readings are.
\<close>

theorem messages_append_only:
  "(\<exists>new. messages (run s evs) = messages s @ new) \<and>
   (messages (step ev s) = messages s \<or> (\<exists>m. messages (step ev s) = messages s @ [m])) \<and>
   (handler_of r s = Some cl \<and> trim (lastTranscriptRef s) \<noteq> [] \<longrightarrow>
      messages (step (RecEnd r stmp) s) =
        messages s @ [new_message User (trim (lastTranscriptRef s)) stmp]) \<and>
   (trim text \<noteq> [] \<longrightarrow>
      messages (step (SendText text stmp) s) = messages s @ [new_message User (trim text) stmp]) \<and>
   (AwaitFetch i \<in> set (tasks s) \<and> read_reply res = Inr reply \<longrightarrow>
      messages (step (FetchSettled i res stmp) s) =
        messages s @ [new_message Assistant reply stmp]) \<and>
   ts (new_message rl c stmp) = now_ts stmp \<and>
   (sorted (map ts (messages s) @ clock_readings evs) \<longrightarrow>
      sorted (map ts (messages (run s evs))))"
proof -
  have "messages (step ev s) = messages s \<or> (\<exists>m. messages (step ev s) = messages s @ [m])"
    using step_messages [of ev s] by blast
  then show ?thesis
    using run_messages_prefix [of s evs] run_messages_sorted [of s evs]
    by (simp add: step_RecEnd_messages step_SendText_messages step_FetchSettled_messages)
qed

text \<open>An utterance, a reply, and two texts with clock readings 10 and 20.\<close>

theorem messages_append_only_witness:
  "handler_of 0 (run (init False True True True) heard) = Some listening_closure \<and>
   trim (lastTranscriptRef (run (init False True True True) heard)) = ascii ''turn on the lights'' \<and>
   map content (messages (step (RecEnd 0 (demo_stamp 100)) (run (init False True True True) heard))) =
     [ascii ''turn on the lights''] \<and>
   AwaitFetch 0 \<in> set (tasks (run (init False True True True) to_thinking)) \<and>
   read_reply lights_reply = Inr (ascii ''Lights are on.'') \<and>
   map content (messages (step (FetchSettled 0 lights_reply (demo_stamp 300))
      (run (init False True True True) to_thinking))) =
     [ascii ''turn on the lights'', ascii ''Lights are on.''] \<and>
   sorted (map ts (messages (init False True True True)) @ clock_readings two_sends) \<and>
   sorted (map ts (messages (run (init False True True True) two_sends)))"
proof -
  let ?h = "run (init False True True True) heard"
  let ?t = "run (init False True True True) to_thinking"
  have a: "handler_of 0 ?h = Some listening_closure" by code_simp
  have b: "trim (lastTranscriptRef ?h) = ascii ''turn on the lights''" by code_simp
  have b': "ascii ''turn on the lights'' \<noteq> []" by code_simp
  have c: "messages ?h = []" by code_simp
  have d: "AwaitFetch 0 \<in> set (tasks ?t)" by code_simp
  have e: "read_reply lights_reply = Inr (ascii ''Lights are on.'')" by code_simp
  have f: "map content (messages ?t) = [ascii ''turn on the lights'']" by code_simp
  have g: "sorted (map ts (messages (init False True True True)) @ clock_readings two_sends)"
    by code_simp
  from messages_append_only [of ?h "[]" Retry 0 listening_closure "demo_stamp 100"] a b b' c
  have 1: "map content (messages (step (RecEnd 0 (demo_stamp 100)) ?h)) =
      [ascii ''turn on the lights'']"
    by simp
  from messages_append_only [of ?t "[]" Retry _ _ "demo_stamp 300" _ 0 lights_reply
      "ascii ''Lights are on.''"] d e f
  have 2: "map content (messages (step (FetchSettled 0 lights_reply (demo_stamp 300)) ?t)) =
      [ascii ''turn on the lights'', ascii ''Lights are on.'']"
    by simp
  from messages_append_only [of "init False True True True" two_sends] g
  have 3: "sorted (map ts (messages (run (init False True True True) two_sends)))"
    by blast
  from a b d e g 1 2 3 show ?thesis by blast
qed

text \<open>
  Claim C9 as stated expects non-decreasing timestamps in every run. With the wall clock
  at 20 for the first text and at 10 for the second, the timestamps are 20, 10.
\<close>

theorem timestamps_follow_clock_back:
  "map ts (messages (run (init False True True True) clock_steps_back)) = [20, 10] \<and>
   \<not> sorted (map ts (messages (run (init False True True True) clock_steps_back)))"
  by code_simp

end
